theory Spec2Isabelle
  imports Complex_Main "HOL-Library.Word" "HOL-Library.Log_Nat"
begin

section \<open>JavaScript numbers\<close>

text \<open>
  A JavaScript \<open>number\<close> is an IEEE 754 binary64 value: a finite rational, one of the two
  infinities, or NaN. The two zeros are identified: no operation of the colour processor
  tells them apart (it never divides by a computed zero and never prints a negative zero).
  A read of a typed array outside its bounds gives \<open>undefined\<close>, which every arithmetic
  operation and comparison converts to NaN; such reads are modelled as NaN directly.
\<close>

datatype number = Finite rat | PosInf | NegInf | NaN

text \<open>The exponent of a positive rational: \<open>2 ^ ilog2 x \<le> x < 2 ^ (ilog2 x + 1)\<close>.\<close>

definition ilog2 :: "rat \<Rightarrow> int" where
  "ilog2 x = (if 1 \<le> x then bitlen \<lfloor>x\<rfloor> - 1 else - bitlen (\<lceil>1 / x\<rceil> - 1))"

text \<open>Rounding to the nearest integer, ties to the even one.\<close>

definition roundTiesToEven :: "rat \<Rightarrow> int" where
  "roundTiesToEven x =
     (let f = \<lfloor>x\<rfloor>; r = x - of_int f
      in if r < 1 / 2 then f else if 1 / 2 < r then f + 1 else if even f then f else f + 1)"

text \<open>
  Rounding a positive rational to the nearest value with a \<open>p\<close>-bit significand and an
  exponent not below \<open>emin\<close> (below it the spacing stays that of the subnormal numbers).
\<close>

definition roundPos :: "nat \<Rightarrow> int \<Rightarrow> rat \<Rightarrow> rat" where
  "roundPos p emin x =
     (let e = max (ilog2 x) emin; u = 2 powi (e - int p + 1)
      in of_int (roundTiesToEven (x / u)) * u)"

text \<open>IEEE 754 round-to-nearest-even into a binary format; overflow gives an infinity.\<close>

definition roundFloat :: "nat \<Rightarrow> int \<Rightarrow> int \<Rightarrow> rat \<Rightarrow> number" where
  "roundFloat p emin emax x =
     (if x = 0 then Finite 0
      else let m = roundPos p emin \<bar>x\<bar>
           in if 2 powi (emax + 1) \<le> m then (if 0 < x then PosInf else NegInf)
              else Finite (sgn x * m))"

definition round64 :: "rat \<Rightarrow> number" where
  "round64 = roundFloat 53 (- 1022) 1023"

definition round32 :: "rat \<Rightarrow> number" where
  "round32 = roundFloat 24 (- 126) 127"

text \<open>The comparisons \<open><\<close> and \<open>\<le>\<close> of JavaScript: false as soon as one side is NaN.\<close>

fun fless :: "number \<Rightarrow> number \<Rightarrow> bool" where
  "fless (Finite a) (Finite b) = (a < b)"
| "fless (Finite a) PosInf = True"
| "fless NegInf (Finite b) = True"
| "fless NegInf PosInf = True"
| "fless _ _ = False"

fun fle :: "number \<Rightarrow> number \<Rightarrow> bool" where
  "fle (Finite a) (Finite b) = (a \<le> b)"
| "fle NaN _ = False"
| "fle _ NaN = False"
| "fle _ PosInf = True"
| "fle NegInf _ = True"
| "fle _ _ = False"

fun fneg :: "number \<Rightarrow> number" where
  "fneg (Finite a) = Finite (- a)"
| "fneg PosInf = NegInf"
| "fneg NegInf = PosInf"
| "fneg NaN = NaN"

fun fadd :: "number \<Rightarrow> number \<Rightarrow> number" where
  "fadd (Finite a) (Finite b) = round64 (a + b)"
| "fadd NaN _ = NaN"
| "fadd _ NaN = NaN"
| "fadd PosInf NegInf = NaN"
| "fadd NegInf PosInf = NaN"
| "fadd PosInf _ = PosInf"
| "fadd _ PosInf = PosInf"
| "fadd NegInf _ = NegInf"
| "fadd _ NegInf = NegInf"

definition fsub :: "number \<Rightarrow> number \<Rightarrow> number" where
  "fsub a b = fadd a (fneg b)"

fun fmul :: "number \<Rightarrow> number \<Rightarrow> number" where
  "fmul (Finite a) (Finite b) = round64 (a * b)"
| "fmul NaN _ = NaN"
| "fmul _ NaN = NaN"
| "fmul (Finite a) b = (if a = 0 then NaN else if 0 < a then b else fneg b)"
| "fmul a (Finite b) = (if b = 0 then NaN else if 0 < b then a else fneg a)"
| "fmul PosInf b = b"
| "fmul NegInf b = fneg b"

text \<open>Division; a zero divisor is the positive zero (a pixel count, a grid size).\<close>

fun fdiv :: "number \<Rightarrow> number \<Rightarrow> number" where
  "fdiv (Finite a) (Finite b) =
     (if b = 0 then (if a = 0 then NaN else if 0 < a then PosInf else NegInf)
      else round64 (a / b))"
| "fdiv NaN _ = NaN"
| "fdiv _ NaN = NaN"
| "fdiv (Finite a) _ = Finite 0"
| "fdiv a (Finite b) = (if 0 \<le> b then a else fneg a)"
| "fdiv _ _ = NaN"

text \<open>Storing a number into a \<open>Float32Array\<close> rounds it to binary32.\<close>

fun toFloat32 :: "number \<Rightarrow> number" where
  "toFloat32 (Finite x) = round32 x"
| "toFloat32 v = v"

text \<open>
  Storing a number into a \<open>Uint8ClampedArray\<close> (ToUint8Clamp): NaN becomes 0, the value
  is clamped to \<open>[0, 255]\<close> and rounded to the nearest integer, ties to even.
\<close>

fun toUint8Clamp :: "number \<Rightarrow> 8 word" where
  "toUint8Clamp NaN = 0"
| "toUint8Clamp PosInf = 255"
| "toUint8Clamp NegInf = 0"
| "toUint8Clamp (Finite x) =
     (if x \<le> 0 then 0 else if 255 \<le> x then 255 else word_of_int (roundTiesToEven x))"

section \<open>Typed arrays\<close>

text \<open>
  \<open>Uint8ClampedArray\<close> and \<open>Uint8Array\<close> are lists of bytes, \<open>Uint32Array\<close> lists of
  32-bit words, \<open>Float32Array\<close> lists of numbers. A read outside the bounds is
  \<open>undefined\<close> (\<open>None\<close> for an index, NaN for a number); a write outside the bounds is
  dropped, which is what \<open>xs[i := v]\<close> does.
\<close>

definition byteAt :: "8 word list \<Rightarrow> nat \<Rightarrow> 8 word option" where
  "byteAt data i = (if i < length data then Some (data ! i) else None)"

definition numAt :: "number list \<Rightarrow> nat \<Rightarrow> number" where
  "numAt xs i = (if i < length xs then xs ! i else NaN)"

definition countAt :: "32 word list \<Rightarrow> nat \<Rightarrow> number" where
  "countAt hist i = (if i < length hist then Finite (of_nat (unat (hist ! i))) else NaN)"

definition toNumber :: "8 word option \<Rightarrow> number" where
  "toNumber v = (case v of None \<Rightarrow> NaN | Some w \<Rightarrow> Finite (of_nat (unat w)))"

section \<open>Histogram Builder: getHistogram\<close>

record histograms =
  rHist :: "32 word list"
  gHist :: "32 word list"
  bHist :: "32 word list"

text \<open>\<open>hist[v]++\<close> on a \<open>Uint32Array\<close>: the count wraps at \<open>2 ^ 32\<close>; nothing happens
  to the buckets when \<open>v\<close> is \<open>undefined\<close>.\<close>

definition bump :: "32 word list \<Rightarrow> 8 word option \<Rightarrow> 32 word list" where
  "bump hist v = (case v of None \<Rightarrow> hist | Some w \<Rightarrow> hist[unat w := hist ! unat w + 1])"

function getHistogram_loop :: "8 word list \<Rightarrow> nat \<Rightarrow> histograms \<Rightarrow> histograms" where
  "getHistogram_loop data i h =
     (if i < length data
      then getHistogram_loop data (i + 4)
             \<lparr> rHist = bump (rHist h) (byteAt data i),
               gHist = bump (gHist h) (byteAt data (i + 1)),
               bHist = bump (bHist h) (byteAt data (i + 2)) \<rparr>
      else h)"
  by pat_completeness auto
termination
  by (relation "measure (\<lambda>(data, i, h). length data - i)") auto

declare getHistogram_loop.simps [simp del]

definition getHistogram :: "8 word list \<Rightarrow> histograms" where
  "getHistogram data =
     getHistogram_loop data 0
       \<lparr> rHist = replicate 256 0, gHist = replicate 256 0, bHist = replicate 256 0 \<rparr>"

section \<open>Distribution Normalizer: getCDF\<close>

function getCDF_loop ::
  "32 word list \<Rightarrow> number \<Rightarrow> nat \<Rightarrow> number \<Rightarrow> number list \<Rightarrow> number list" where
  "getCDF_loop hist totalPixels i cumulative cdf =
     (if i < 256
      then let cumulative' = fadd cumulative (countAt hist i)
           in getCDF_loop hist totalPixels (i + 1) cumulative'
                (cdf[i := toFloat32 (fdiv cumulative' totalPixels)])
      else cdf)"
  by pat_completeness auto
termination
  by (relation "measure (\<lambda>(hist, totalPixels, i, cumulative, cdf). 256 - i)") auto

declare getCDF_loop.simps [simp del]

definition getCDF :: "32 word list \<Rightarrow> number \<Rightarrow> number list" where
  "getCDF hist totalPixels =
     getCDF_loop hist totalPixels 0 (Finite 0) (replicate 256 (Finite 0))"

section \<open>Channel Mapper: createMapping\<close>

text \<open>The inner \<open>while\<close> loop: the cursor moves forward while it is below 255 and the
  reference CDF under it is less than the source CDF value.\<close>

function advance :: "number list \<Rightarrow> number \<Rightarrow> nat \<Rightarrow> nat" where
  "advance refCdf s refIdx =
     (if refIdx < 255 \<and> fless (numAt refCdf refIdx) s
      then advance refCdf s (refIdx + 1)
      else refIdx)"
  by pat_completeness auto
termination
  by (relation "measure (\<lambda>(refCdf, s, refIdx). 255 - refIdx)") auto

declare advance.simps [simp del]

function createMapping_loop ::
  "number list \<Rightarrow> number list \<Rightarrow> nat \<Rightarrow> nat \<Rightarrow> 8 word list \<Rightarrow> 8 word list" where
  "createMapping_loop sourceCdf refCdf srcIdx refIdx mapping =
     (if srcIdx < 256
      then let refIdx' = advance refCdf (numAt sourceCdf srcIdx) refIdx
           in createMapping_loop sourceCdf refCdf (srcIdx + 1) refIdx'
                (mapping[srcIdx := of_nat refIdx'])
      else mapping)"
  by pat_completeness auto
termination
  by (relation "measure (\<lambda>(sourceCdf, refCdf, srcIdx, refIdx, mapping). 256 - srcIdx)") auto

declare createMapping_loop.simps [simp del]

definition createMapping :: "number list \<Rightarrow> number list \<Rightarrow> 8 word list" where
  "createMapping sourceCdf refCdf = createMapping_loop sourceCdf refCdf 0 0 (replicate 256 0)"

section \<open>Grading Applicator: the blending loop of processImages\<close>

text \<open>\<open>mappings.r[sourcePixels.data[i]]\<close>: \<open>undefined\<close> when either read is out of bounds.\<close>

definition lookup :: "8 word list \<Rightarrow> 8 word option \<Rightarrow> 8 word option" where
  "lookup mapping v = (case v of None \<Rightarrow> None | Some w \<Rightarrow> byteAt mapping (unat w))"

text \<open>\<open>src + (match - src) * intensity\<close>, stored into the \<open>Uint8ClampedArray\<close>.\<close>

definition blend :: "8 word option \<Rightarrow> 8 word option \<Rightarrow> number \<Rightarrow> 8 word" where
  "blend src match intensity =
     toUint8Clamp (fadd (toNumber src) (fmul (fsub (toNumber match) (toNumber src)) intensity))"

function applyMappings_loop ::
  "8 word list \<Rightarrow> 8 word list \<Rightarrow> 8 word list \<Rightarrow> 8 word list \<Rightarrow> number \<Rightarrow> nat \<Rightarrow>
   8 word list \<Rightarrow> 8 word list" where
  "applyMappings_loop data mr mg mb intensity i resultData =
     (if i < length data
      then let rMatch = lookup mr (byteAt data i);
               gMatch = lookup mg (byteAt data (i + 1));
               bMatch = lookup mb (byteAt data (i + 2))
           in applyMappings_loop data mr mg mb intensity (i + 4)
                (resultData
                   [i := blend (byteAt data i) rMatch intensity,
                    i + 1 := blend (byteAt data (i + 1)) gMatch intensity,
                    i + 2 := blend (byteAt data (i + 2)) bMatch intensity,
                    i + 3 := 255])
      else resultData)"
  by pat_completeness auto
termination
  by (relation "measure (\<lambda>(data, mr, mg, mb, intensity, i, resultData). length data - i)") auto

declare applyMappings_loop.simps [simp del]

definition applyMappings ::
  "8 word list \<Rightarrow> 8 word list \<Rightarrow> 8 word list \<Rightarrow> 8 word list \<Rightarrow> number \<Rightarrow> 8 word list" where
  "applyMappings data mr mg mb intensity =
     applyMappings_loop data mr mg mb intensity 0 (replicate (length data) 0)"

section \<open>The pipeline of processImages, from the two pixel buffers to the graded buffer\<close>

text \<open>
  What \<open>getImageData\<close> returns: the canvas size and the RGBA samples (the fields
  \<open>width\<close>, \<open>height\<close> and \<open>data\<close> of an \<open>ImageData\<close>). Loading the images,
  drawing them and encoding the result as JPEG are the browser's work and stay outside.
\<close>

record imageData =
  imgWidth :: nat
  imgHeight :: nat
  imgData :: "8 word list"

definition channelCDFs :: "imageData \<Rightarrow> number list \<times> number list \<times> number list" where
  "channelCDFs pixels =
     (let hists = getHistogram (imgData pixels);
          total = fmul (Finite (of_nat (imgWidth pixels))) (Finite (of_nat (imgHeight pixels)))
      in (getCDF (rHist hists) total, getCDF (gHist hists) total, getCDF (bHist hists) total))"

definition channelMappings ::
  "imageData \<Rightarrow> imageData \<Rightarrow> 8 word list \<times> 8 word list \<times> 8 word list" where
  "channelMappings sourcePixels refPixels =
     (case channelCDFs refPixels of (refR, refG, refB) \<Rightarrow>
      case channelCDFs sourcePixels of (srcR, srcG, srcB) \<Rightarrow>
        (createMapping srcR refR, createMapping srcG refG, createMapping srcB refB))"

definition processPixels :: "imageData \<Rightarrow> imageData \<Rightarrow> number \<Rightarrow> 8 word list" where
  "processPixels sourcePixels refPixels intensity =
     (case channelMappings sourcePixels refPixels of (mr, mg, mb) \<Rightarrow>
        applyMappings (imgData sourcePixels) mr mg mb intensity)"

section \<open>LUT Synthesizer: generateLUTData\<close>

definition LUT_SIZE :: nat where
  "LUT_SIZE = 33"

text \<open>The decimal digits of a natural number (\<open>ToString\<close> of a non-negative integer).\<close>

function natDigits :: "nat \<Rightarrow> string" where
  "natDigits n =
     (if n < 10 then [''0123456789'' ! n]
      else natDigits (n div 10) @ [''0123456789'' ! (n mod 10)])"
  by pat_completeness auto
termination
  by (relation "measure id") auto

declare natDigits.simps [simp del]

text \<open>
  \<open>Number.prototype.toFixed\<close> on a non-negative number below \<open>10 ^ 21\<close>: the integer
  \<open>n\<close> nearest to \<open>x * 10 ^ f\<close> (the larger one on a tie), its digits padded with zeros
  to at least \<open>f + 1\<close> characters, and a point before the last \<open>f\<close> of them.
\<close>

definition fixedDigits :: "nat \<Rightarrow> rat \<Rightarrow> string" where
  "fixedDigits f x =
     (let n = nat \<lfloor>x * 10 ^ f + 1 / 2\<rfloor>;
          m = natDigits n;
          m = (if f \<noteq> 0 \<and> length m \<le> f then replicate (f + 1 - length m) (CHR ''0'') @ m else m);
          k = length m
      in if f \<noteq> 0 then take (k - f) m @ ''.'' @ drop (k - f) m else m)"

text \<open>
  \<open>toFixed\<close> on any number. From \<open>10 ^ 21\<close> on JavaScript switches to the exponent
  notation of \<open>ToString\<close>, which is not modelled: generateLUTData formats the values
  \<open>i / 32\<close> for \<open>i \<le> 32\<close> only.
\<close>

fun toFixed :: "nat \<Rightarrow> number \<Rightarrow> string" where
  "toFixed f NaN = ''NaN''"
| "toFixed f PosInf = ''Infinity''"
| "toFixed f NegInf = ''-Infinity''"
| "toFixed f (Finite x) = (if x < 0 then ''-'' @ fixedDigits f (- x) else fixedDigits f x)"

text \<open>The three values of one grid point and the line they are printed on.\<close>

definition gridLine :: "nat \<Rightarrow> nat \<Rightarrow> nat \<Rightarrow> string" where
  "gridLine r g b =
     (let rv = fdiv (Finite (of_nat r)) (fsub (Finite (of_nat LUT_SIZE)) (Finite 1));
          gv = fdiv (Finite (of_nat g)) (fsub (Finite (of_nat LUT_SIZE)) (Finite 1));
          bv = fdiv (Finite (of_nat b)) (fsub (Finite (of_nat LUT_SIZE)) (Finite 1))
      in toFixed 6 rv @ '' '' @ toFixed 6 gv @ '' '' @ toFixed 6 bv @ ''\<newline>'')"

text \<open>
  The function takes the two image URLs and the intensity and uses none of them; each
  \<open>for\<close> loop runs over \<open>0 ..< LUT_SIZE\<close> and appends to the string \<open>cube\<close>.
\<close>

definition generateLUTData :: "string \<Rightarrow> string \<Rightarrow> number \<Rightarrow> string" where
  "generateLUTData sourceUrl refUrl intensity =
     (let cube = ''TITLE '' @ [CHR 0x22] @ ''LuminaLUT Grade'' @ [CHR 0x22] @ ''\<newline>'';
          cube = cube @ ''LUT_3D_SIZE '' @ natDigits LUT_SIZE @ ''\<newline>\<newline>''
      in fold (\<lambda>b cube.
           fold (\<lambda>g cube.
             fold (\<lambda>r cube. cube @ gridLine r g b) [0..<LUT_SIZE] cube)
           [0..<LUT_SIZE] cube)
         [0..<LUT_SIZE] cube)"

section \<open>Reference values for the statements below\<close>

text \<open>
  The sample that the blending loop leaves at index \<open>j\<close> of the result: 255 at an alpha
  position, otherwise the blend of the source sample with its image under the mapping of
  its channel.
\<close>

definition gradedSample ::
  "8 word list \<Rightarrow> 8 word list \<Rightarrow> 8 word list \<Rightarrow> 8 word list \<Rightarrow> number \<Rightarrow> nat \<Rightarrow> 8 word" where
  "gradedSample data mr mg mb intensity j =
     (if j mod 4 = 3 then 255
      else blend (byteAt data j)
             (lookup (if j mod 4 = 0 then mr else if j mod 4 = 1 then mg else mb) (byteAt data j))
             intensity)"

text \<open>The samples of one channel (0 red, 1 green, 2 blue, 3 alpha) of a buffer of whole
  pixels, in pixel order.\<close>

definition channelSamples :: "nat \<Rightarrow> 8 word list \<Rightarrow> 8 word list" where
  "channelSamples c data = map (\<lambda>k. data ! (4 * k + c)) [0..<length data div 4]"

text \<open>A test image of 10 pixels in one row, each with the red sample \<open>v\<close>, green and
  blue 0 and alpha 255.\<close>

definition redImage :: "8 word \<Rightarrow> imageData" where
  "redImage v =
     \<lparr> imgWidth = 10, imgHeight = 1, imgData = concat (replicate 10 [v, 0, 0, 255]) \<rparr>"

text \<open>The grid coordinates \<open>i / 32\<close> for \<open>i = 0, \<dots>, 32\<close>, written with six decimals.\<close>

definition axisText :: "string list" where
  "axisText =
     [''0.000000'', ''0.031250'', ''0.062500'', ''0.093750'', ''0.125000'', ''0.156250'',
      ''0.187500'', ''0.218750'', ''0.250000'', ''0.281250'', ''0.312500'', ''0.343750'',
      ''0.375000'', ''0.406250'', ''0.437500'', ''0.468750'', ''0.500000'', ''0.531250'',
      ''0.562500'', ''0.593750'', ''0.625000'', ''0.656250'', ''0.687500'', ''0.718750'',
      ''0.750000'', ''0.781250'', ''0.812500'', ''0.843750'', ''0.875000'', ''0.906250'',
      ''0.937500'', ''0.968750'', ''1.000000'']"

section \<open>Lemmas: the exponent of a rational\<close>

lemma ilog2_bounds:
  assumes "0 < x"
  shows "2 powi (ilog2 x) \<le> x" and "x < 2 powi (ilog2 x + 1)"
proof -
  have "2 powi (ilog2 x) \<le> x \<and> x < 2 powi (ilog2 x + 1)"
  proof (cases "1 \<le> x")
    case True
    define n where "n = \<lfloor>x\<rfloor>"
    have n1: "1 \<le> n" using True by (simp add: n_def)
    then have n0: "0 < n" by simp
    have bl: "1 \<le> bitlen n" using n0 by (simp add: bitlen_alt_def)
    from bitlen_bounds[OF n0] have lo: "2 ^ nat (bitlen n - 1) \<le> n" and hi: "n < 2 ^ nat (bitlen n)"
      by auto
    have e: "ilog2 x = bitlen n - 1" using True by (simp add: ilog2_def n_def)
    have "(2::rat) powi (bitlen n - 1) = 2 ^ nat (bitlen n - 1)"
      using bl by (simp add: power_int_def)
    also have "\<dots> = of_int (2 ^ nat (bitlen n - 1))" by simp
    also have "\<dots> \<le> of_int n" using lo by (simp only: of_int_le_iff)
    also have "\<dots> \<le> x" by (simp add: n_def)
    finally have A: "2 powi (ilog2 x) \<le> x" by (simp add: e)
    have "n + 1 \<le> 2 ^ nat (bitlen n)" using hi by simp
    then have "(of_int (n + 1) :: rat) \<le> of_int (2 ^ nat (bitlen n))" by (simp only: of_int_le_iff)
    moreover have "x < of_int (n + 1)" unfolding n_def by linarith
    ultimately have "x < of_int (2 ^ nat (bitlen n))" by linarith
    also have "\<dots> = 2 powi (bitlen n)" using bl by (simp add: power_int_def)
    finally have B: "x < 2 powi (ilog2 x + 1)" by (simp add: e)
    from A B show ?thesis ..
  next
    case False
    define y where "y = 1 / x"
    have y1: "1 < y" using False assms by (simp add: y_def)
    define m where "m = \<lceil>y\<rceil> - 1"
    have m0: "0 < m" using y1 unfolding m_def by linarith
    define k where "k = bitlen m"
    have k1: "1 \<le> k" using m0 by (simp add: bitlen_alt_def k_def)
    from bitlen_bounds[OF m0] have lo: "2 ^ nat (k - 1) \<le> m" and hi: "m < 2 ^ nat k"
      by (auto simp: k_def)
    have e: "ilog2 x = - k" using False by (simp add: ilog2_def m_def y_def k_def)
    have my: "of_int m < y" unfolding m_def by linarith
    have "(2::rat) ^ nat (k - 1) \<le> of_int m"
      using of_int_le_iff[where 'a=rat, THEN iffD2, OF lo] by simp
    then have "(2::rat) ^ nat (k - 1) < y" using my by linarith
    then have "x < 1 / 2 ^ nat (k - 1)"
      using assms by (simp add: y_def field_simps)
    also have "\<dots> = 2 powi (- k + 1)"
      using k1 by (simp add: power_int_def field_simps power_inverse)
    finally have B: "x < 2 powi (ilog2 x + 1)" by (simp add: e)
    have "\<lceil>y\<rceil> \<le> 2 ^ nat k" using hi by (simp add: m_def)
    then have "(of_int \<lceil>y\<rceil> :: rat) \<le> 2 ^ nat k"
      using of_int_le_iff[where 'a=rat and w="\<lceil>y\<rceil>" and z="2 ^ nat k"] by simp
    then have "y \<le> 2 ^ nat k" using le_of_int_ceiling[of y] by linarith
    then have "1 / 2 ^ nat k \<le> x" using assms by (simp add: y_def field_simps)
    moreover have "(2::rat) powi (- k) = 1 / 2 ^ nat k"
      using k1 by (simp add: power_int_def field_simps power_inverse)
    ultimately have A: "2 powi (ilog2 x) \<le> x" by (simp add: e)
    from A B show ?thesis ..
  qed
  then show "2 powi (ilog2 x) \<le> x" and "x < 2 powi (ilog2 x + 1)" by auto
qed

section \<open>Lemmas: rounding is monotone\<close>

lemma ilog2_mono:
  assumes "0 < x" "x \<le> y"
  shows "ilog2 x \<le> ilog2 y"
proof (rule ccontr)
  assume "\<not> ilog2 x \<le> ilog2 y"
  then have "ilog2 y + 1 \<le> ilog2 x" by simp
  then have "(2::rat) powi (ilog2 y + 1) \<le> 2 powi (ilog2 x)"
    by (intro power_int_increasing) auto
  moreover have "y < 2 powi (ilog2 y + 1)" using assms by (intro ilog2_bounds) auto
  moreover have "2 powi (ilog2 x) \<le> x" using assms by (intro ilog2_bounds) auto
  ultimately show False using assms by linarith
qed

lemma ilog2_of_nat_nonneg:
  assumes "1 \<le> x"
  shows "0 \<le> ilog2 x"
  using assms by (simp add: ilog2_def bitlen_alt_def)

lemma roundTiesToEven_of_int [simp]: "roundTiesToEven (of_int z) = z"
  by (simp add: roundTiesToEven_def)

lemma roundTiesToEven_range:
  "\<lfloor>x\<rfloor> \<le> roundTiesToEven x" "roundTiesToEven x \<le> \<lfloor>x\<rfloor> + 1"
  by (simp_all add: roundTiesToEven_def Let_def)

lemma roundTiesToEven_mono:
  assumes "x \<le> y"
  shows "roundTiesToEven x \<le> roundTiesToEven y"
proof (cases "\<lfloor>x\<rfloor> = \<lfloor>y\<rfloor>")
  case True
  then show ?thesis using assms by (auto simp: roundTiesToEven_def Let_def)
next
  case False
  then have "\<lfloor>x\<rfloor> + 1 \<le> \<lfloor>y\<rfloor>" using floor_mono[OF assms] by simp
  then show ?thesis
    using roundTiesToEven_range(2)[of x] roundTiesToEven_range(1)[of y] by linarith
qed

lemma roundTiesToEven_le_int:
  assumes "x \<le> of_int z"
  shows "roundTiesToEven x \<le> z"
  using roundTiesToEven_mono[OF assms] by simp

lemma roundTiesToEven_ge_int:
  assumes "of_int z \<le> x"
  shows "z \<le> roundTiesToEven x"
  using roundTiesToEven_mono[OF assms] by simp

text \<open>The spacing of representable values around x.\<close>

lemma roundPos_upper:
  assumes x: "0 < x" and p: "0 < p" and e: "ilog2 x \<le> e" "emin \<le> e"
  shows "roundPos p emin x \<le> 2 powi (e + 1)"
proof -
  define e0 where "e0 = max (ilog2 x) emin"
  define u :: rat where "u = 2 powi (e0 - int p + 1)"
  have u0: "0 < u" by (simp add: u_def)
  have e0: "ilog2 x \<le> e0" "e0 \<le> e" using e by (auto simp: e0_def)
  have "x < 2 powi (ilog2 x + 1)" using x by (rule ilog2_bounds)
  also have "\<dots> \<le> 2 powi (e0 + 1)" using e0 by (intro power_int_increasing) auto
  also have "\<dots> = 2 powi (int p) * u"
    unfolding u_def by (subst power_int_add[symmetric]) auto
  finally have "x / u \<le> 2 powi (int p)" using u0 by (simp add: field_simps)
  then have "x / u \<le> of_int (2 ^ p)" by simp
  then have "roundTiesToEven (x / u) \<le> 2 ^ p" by (rule roundTiesToEven_le_int)
  then have "(of_int (roundTiesToEven (x / u)) :: rat) \<le> of_int (2 ^ p)"
    by (simp only: of_int_le_iff)
  then have "of_int (roundTiesToEven (x / u)) * u \<le> 2 powi (int p) * u"
    using u0 by (intro mult_right_mono) auto
  also have "\<dots> = 2 powi (e0 + 1)"
    unfolding u_def by (subst power_int_add[symmetric]) auto
  also have "\<dots> \<le> 2 powi (e + 1)" using e0 by (intro power_int_increasing) auto
  finally show ?thesis by (simp add: roundPos_def Let_def e0_def u_def)
qed

lemma roundPos_lower:
  assumes x: "0 < x" and p: "0 < p" and e: "emin \<le> ilog2 x"
  shows "2 powi (ilog2 x) \<le> roundPos p emin x"
proof -
  define e0 where "e0 = ilog2 x"
  define u :: rat where "u = 2 powi (e0 - int p + 1)"
  have u0: "0 < u" by (simp add: u_def)
  have m: "max (ilog2 x) emin = e0" using e by (simp add: e0_def)
  have pp: "(2::rat) powi (int p - 1) = of_int (2 ^ (p - 1))"
    using p by (simp add: power_int_def nat_diff_distrib)
  have "2 powi (int p - 1) * u = 2 powi e0"
    unfolding u_def by (subst power_int_add[symmetric]) auto
  moreover have "2 powi e0 \<le> x" unfolding e0_def using x by (rule ilog2_bounds)
  ultimately have "2 powi (int p - 1) \<le> x / u" using u0 by (simp add: field_simps)
  then have "of_int (2 ^ (p - 1)) \<le> x / u" by (simp only: pp)
  then have "2 ^ (p - 1) \<le> roundTiesToEven (x / u)" by (rule roundTiesToEven_ge_int)
  then have "(of_int (2 ^ (p - 1)) :: rat) \<le> of_int (roundTiesToEven (x / u))"
    by (simp only: of_int_le_iff)
  then have "(2::rat) powi (int p - 1) \<le> of_int (roundTiesToEven (x / u))"
    by (simp only: pp)
  then have "2 powi (int p - 1) * u \<le> of_int (roundTiesToEven (x / u)) * u"
    using u0 by (intro mult_right_mono) auto
  also have "\<dots> = roundPos p emin x"
    by (simp add: roundPos_def Let_def m u_def)
  finally show ?thesis
    using \<open>2 powi (int p - 1) * u = 2 powi e0\<close> by (simp add: e0_def)
qed

lemma roundPos_mono:
  assumes x: "0 < x" and xy: "x \<le> y" and p: "0 < p"
  shows "roundPos p emin x \<le> roundPos p emin y"
proof -
  have y: "0 < y" using x xy by simp
  define ex where "ex = max (ilog2 x) emin"
  define ey where "ey = max (ilog2 y) emin"
  have le: "ex \<le> ey" using ilog2_mono[OF x xy] by (simp add: ex_def ey_def)
  show ?thesis
  proof (cases "ex = ey")
    case True
    define u :: rat where "u = 2 powi (ex - int p + 1)"
    have u0: "0 < u" by (simp add: u_def)
    have "x / u \<le> y / u" using xy u0 by (simp add: divide_right_mono)
    then have "roundTiesToEven (x / u) \<le> roundTiesToEven (y / u)"
      by (rule roundTiesToEven_mono)
    then have "(of_int (roundTiesToEven (x / u)) :: rat) \<le> of_int (roundTiesToEven (y / u))"
      by (simp only: of_int_le_iff)
    then have "of_int (roundTiesToEven (x / u)) * u \<le> of_int (roundTiesToEven (y / u)) * u"
      using u0 by (simp only: mult_le_cancel_right_pos)
    then show ?thesis
      using True by (simp add: roundPos_def Let_def ex_def[symmetric] ey_def[symmetric] u_def)
  next
    case False
    then have lt: "ex + 1 \<le> ey" using le by simp
    then have ey: "ey = ilog2 y" "emin \<le> ilog2 y"
      by (auto simp: ex_def ey_def max_def split: if_splits)
    have "roundPos p emin x \<le> 2 powi (ex + 1)"
      using x p by (rule roundPos_upper) (auto simp: ex_def)
    also have "\<dots> \<le> 2 powi ey" using lt by (intro power_int_increasing) auto
    also have "\<dots> \<le> roundPos p emin y"
      unfolding ey(1) using y p ey(2) by (rule roundPos_lower)
    finally show ?thesis .
  qed
qed

lemma roundPos_nonneg:
  assumes "0 < x"
  shows "0 \<le> roundPos p emin x"
proof -
  have "0 \<le> roundTiesToEven (x / 2 powi (max (ilog2 x) emin - int p + 1))"
    using assms by (intro roundTiesToEven_ge_int) simp
  then show ?thesis by (simp add: roundPos_def Let_def)
qed

section \<open>Lemmas: rounding is exact on small integers\<close>

lemma roundPos_of_nat:
  assumes m: "0 < m" "m < 2 ^ p" and emin: "emin \<le> 0"
  shows "roundPos p emin (of_nat m) = of_nat m"
proof -
  define x :: rat where "x = of_nat m"
  have x1: "1 \<le> x" using m by (simp add: x_def)
  then have x0: "0 < x" by simp
  define e where "e = ilog2 x"
  have e0: "0 \<le> e" unfolding e_def using x1 by (rule ilog2_of_nat_nonneg)
  have "2 powi e \<le> x" unfolding e_def using x0 by (rule ilog2_bounds)
  also have "x < 2 powi (int p)" using m(2) unfolding x_def
    by (metis of_nat_less_iff of_nat_numeral of_nat_power power_int_of_nat)
  finally have "(2::rat) powi e < 2 powi (int p)" .
  have ep: "e < int p"
  proof (rule ccontr)
    assume "\<not> e < int p"
    then have "(2::rat) powi (int p) \<le> 2 powi e" by (intro power_int_increasing) auto
    with \<open>(2::rat) powi e < 2 powi (int p)\<close> show False by simp
  qed
  define k where "k = nat (int p - 1 - e)"
  have ke: "e - int p + 1 = - int k" using ep by (simp add: k_def)
  have mx: "max (ilog2 x) emin = e" using e0 emin by (simp add: e_def)
  define u :: rat where "u = 2 powi (e - int p + 1)"
  have u: "u = 1 / 2 ^ k" by (simp add: u_def ke power_int_minus_divide)
  have "x / u = of_int (int m * 2 ^ k)" by (simp add: u x_def)
  then have "roundTiesToEven (x / u) = int m * 2 ^ k" by (simp only: roundTiesToEven_of_int)
  then have "of_int (roundTiesToEven (x / u)) * u = x" by (simp add: u x_def)
  then show ?thesis
    by (simp add: roundPos_def Let_def mx u_def x_def[symmetric])
qed

lemma roundFloat_of_nat:
  assumes m: "m < 2 ^ p" and emin: "emin \<le> 0" and emax: "int p \<le> emax + 1"
  shows "roundFloat p emin emax (of_nat m) = Finite (of_nat m)"
proof (cases "m = 0")
  case True
  then show ?thesis by (simp add: roundFloat_def)
next
  case False
  then have m0: "0 < m" by simp
  have r: "roundPos p emin (of_nat m) = of_nat m" using m0 m emin by (rule roundPos_of_nat)
  have "(of_nat m :: rat) < 2 powi (int p)" using m
    by (metis of_nat_less_iff of_nat_numeral of_nat_power power_int_of_nat)
  also have "\<dots> \<le> 2 powi (emax + 1)" using emax by (intro power_int_increasing) auto
  finally have "\<not> 2 powi (emax + 1) \<le> (of_nat m :: rat)" by simp
  then show ?thesis using m0 by (simp add: roundFloat_def r)
qed

lemma roundFloat_of_int:
  assumes z: "\<bar>z\<bar> < 2 ^ p" and emin: "emin \<le> 0" and emax: "int p \<le> emax + 1"
  shows "roundFloat p emin emax (of_int z) = Finite (of_int z)"
proof (cases "0 \<le> z")
  case True
  then have "nat z < 2 ^ p" using z by (simp add: nat_less_iff)
  from roundFloat_of_nat[OF this emin emax] show ?thesis using True by simp
next
  case False
  then have neg: "z < 0" by simp
  define m where "m = nat (- z)"
  have m: "m < 2 ^ p" "0 < m" using z neg by (auto simp: m_def nat_less_iff)
  have zm: "(of_int z :: rat) = - of_nat m" using neg by (simp add: m_def)
  have r: "roundPos p emin (of_nat m) = of_nat m" using m(2) m(1) emin by (rule roundPos_of_nat)
  have "(of_nat m :: rat) < 2 powi (int p)" using m(1)
    by (metis of_nat_less_iff of_nat_numeral of_nat_power power_int_of_nat)
  also have "\<dots> \<le> 2 powi (emax + 1)" using emax by (intro power_int_increasing) auto
  finally have "\<not> 2 powi (emax + 1) \<le> (of_nat m :: rat)" by simp
  then show ?thesis using m(2) by (simp add: roundFloat_def zm r)
qed

lemma roundFloat_mono:
  assumes x: "0 \<le> x" and xy: "x \<le> y" and p: "0 < p"
  shows "fle (roundFloat p emin emax x) (roundFloat p emin emax y)"
proof (cases "x = 0")
  case True
  show ?thesis
  proof (cases "y = 0")
    case True
    with \<open>x = 0\<close> show ?thesis by (simp add: roundFloat_def)
  next
    case False
    then have "0 < y" using x xy by simp
    then show ?thesis using \<open>x = 0\<close> roundPos_nonneg[of y p emin]
      by (simp add: roundFloat_def Let_def)
  qed
next
  case False
  then have x0: "0 < x" using x by simp
  then have y0: "0 < y" using xy by simp
  have "roundPos p emin x \<le> roundPos p emin y" using x0 xy p by (rule roundPos_mono)
  then show ?thesis using x0 y0 by (simp add: roundFloat_def Let_def)
qed

lemma roundFloat_nonneg:
  assumes "0 \<le> x" "0 < p"
  shows "fle (Finite 0) (roundFloat p emin emax x)"
proof -
  have "fle (roundFloat p emin emax 0) (roundFloat p emin emax x)"
    using assms by (intro roundFloat_mono) auto
  then show ?thesis by (simp add: roundFloat_def)
qed

lemma round64_of_nat: "m < 2 ^ 53 \<Longrightarrow> round64 (of_nat m) = Finite (of_nat m)"
  unfolding round64_def by (rule roundFloat_of_nat) auto

lemma round64_of_int: "\<bar>z\<bar> < 2 ^ 53 \<Longrightarrow> round64 (of_int z) = Finite (of_int z)"
  unfolding round64_def by (rule roundFloat_of_int) auto

lemma round32_of_nat: "m < 2 ^ 24 \<Longrightarrow> round32 (of_nat m) = Finite (of_nat m)"
  unfolding round32_def by (rule roundFloat_of_nat) auto

lemma round64_0 [simp]: "round64 0 = Finite 0"
  by (simp add: round64_def roundFloat_def)

lemma round64_1 [simp]: "round64 1 = Finite 1"
  using round64_of_nat[of 1] by simp

lemma round32_0 [simp]: "round32 0 = Finite 0"
  by (simp add: round32_def roundFloat_def)

lemma round32_1 [simp]: "round32 1 = Finite 1"
  using round32_of_nat[of 1] by simp

lemma fle_refl_iff: "fle a a \<longleftrightarrow> a \<noteq> NaN"
  by (cases a) auto

lemma fle_trans: "fle a b \<Longrightarrow> fle b c \<Longrightarrow> fle a c"
  by (cases a; cases b; cases c) auto

lemma fless_fle_trans: "fless a b \<Longrightarrow> fle b c \<Longrightarrow> fless a c"
  by (cases a; cases b; cases c) auto

lemma toFloat32_mono:
  assumes "fle (Finite 0) a" "fle a b"
  shows "fle (toFloat32 a) (toFloat32 b)"
proof (cases a)
  case (Finite x)
  then have x: "0 \<le> x" using assms(1) by simp
  show ?thesis
  proof (cases b)
    case (Finite y)
    then show ?thesis using assms(2) x \<open>a = Finite x\<close>
      by (simp add: round32_def roundFloat_mono)
  next
    case PosInf
    have "roundFloat 24 (- 126) 127 x \<noteq> NaN" by (simp add: roundFloat_def Let_def)
    then show ?thesis using PosInf \<open>a = Finite x\<close>
      by (cases "roundFloat 24 (- 126) 127 x") (auto simp: round32_def)
  qed (use assms Finite in auto)
qed (use assms in \<open>cases b; auto\<close>)+

lemma toFloat32_nonneg:
  assumes "fle (Finite 0) a"
  shows "fle (Finite 0) (toFloat32 a)"
  using toFloat32_mono[OF _ assms, of ] by simp

section \<open>Lemmas: the histogram loop\<close>

lemma length_bump [simp]: "length (bump hist v) = length hist"
  by (simp add: bump_def split: option.splits)

lemma unat_le_sum_list:
  assumes "k < length hist"
  shows "unat (hist ! k) \<le> sum_list (map unat hist)"
proof -
  have "unat (hist ! k) \<in> set (map unat hist)" using assms by simp
  then show ?thesis by (rule member_le_sum_list) simp
qed

lemma sum_bump:
  fixes hist :: "32 word list"
  assumes len: "length hist = 256" and room: "sum_list (map unat hist) + 1 < 2 ^ 32"
  shows "sum_list (map unat (bump hist (Some w))) = sum_list (map unat hist) + 1"
proof -
  define k where "k = unat w"
  have "k < 2 ^ 8" unfolding k_def using unsigned_less[of w] by simp
  then have k: "k < length hist" using len by simp
  have le: "unat (hist ! k) \<le> sum_list (map unat hist)" using k by (rule unat_le_sum_list)
  then have "unat (hist ! k) + 1 < 2 ^ 32" using room by simp
  then have inc: "unat (hist ! k + 1) = unat (hist ! k) + 1"
    by (simp add: unat_word_ariths)
  have "sum_list (map unat (hist[k := hist ! k + 1]))
        = sum_list ((map unat hist)[k := unat (hist ! k + 1)])"
    by (simp add: map_update)
  also have "\<dots> = sum_list (map unat hist) + unat (hist ! k + 1) - (map unat hist) ! k"
    using k by (simp add: sum_list_update)
  also have "\<dots> = sum_list (map unat hist) + 1"
    using k le by (simp add: inc)
  finally show ?thesis by (simp add: bump_def k_def)
qed

lemma byteAt_Some: "i < length data \<Longrightarrow> byteAt data i = Some (data ! i)"
  by (simp add: byteAt_def)

lemma getHistogram_loop_stop:
  "\<not> i < length data \<Longrightarrow> getHistogram_loop data i h = h"
  by (subst getHistogram_loop.simps) simp

lemma getHistogram_loop_step:
  "i < length data \<Longrightarrow>
   getHistogram_loop data i h =
     getHistogram_loop data (i + 4)
       \<lparr> rHist = bump (rHist h) (byteAt data i),
         gHist = bump (gHist h) (byteAt data (i + 1)),
         bHist = bump (bHist h) (byteAt data (i + 2)) \<rparr>"
  by (subst getHistogram_loop.simps) simp

text \<open>One pass of the loop over a buffer of whole pixels adds one count per remaining
  pixel to each of the three histograms.\<close>

lemma getHistogram_loop_sums:
  assumes "4 dvd length data" "4 dvd i" "i \<le> length data"
    and "length (rHist h) = 256" "length (gHist h) = 256" "length (bHist h) = 256"
    and "sum_list (map unat (rHist h)) + (length data - i) div 4 < 2 ^ 32"
    and "sum_list (map unat (gHist h)) + (length data - i) div 4 < 2 ^ 32"
    and "sum_list (map unat (bHist h)) + (length data - i) div 4 < 2 ^ 32"
  shows "sum_list (map unat (rHist (getHistogram_loop data i h)))
           = sum_list (map unat (rHist h)) + (length data - i) div 4
       \<and> sum_list (map unat (gHist (getHistogram_loop data i h)))
           = sum_list (map unat (gHist h)) + (length data - i) div 4
       \<and> sum_list (map unat (bHist (getHistogram_loop data i h)))
           = sum_list (map unat (bHist h)) + (length data - i) div 4"
  using assms
proof (induction data i h rule: getHistogram_loop.induct)
  case (1 data i h)
  show ?case
  proof (cases "i < length data")
    case False
    then show ?thesis using "1.prems" by (simp add: getHistogram_loop_stop)
  next
    case True
    have i4: "i + 4 \<le> length data"
      using True "1.prems"(1,2) by (elim dvdE) auto
    have rest: "(length data - i) div 4 = (length data - (i + 4)) div 4 + 1"
      using i4 by simp
    define h' where "h' = \<lparr> rHist = bump (rHist h) (byteAt data i),
               gHist = bump (gHist h) (byteAt data (i + 1)),
               bHist = bump (bHist h) (byteAt data (i + 2)) \<rparr>"
    have step: "getHistogram_loop data i h = getHistogram_loop data (i + 4) h'"
      using True by (simp add: getHistogram_loop_step h'_def)
    have sr: "sum_list (map unat (rHist h')) = sum_list (map unat (rHist h)) + 1"
      using i4 "1.prems"(4,7) rest by (simp add: h'_def byteAt_Some sum_bump)
    have sg: "sum_list (map unat (gHist h')) = sum_list (map unat (gHist h)) + 1"
      using i4 "1.prems"(5,8) rest by (simp add: h'_def byteAt_Some sum_bump)
    have sb: "sum_list (map unat (bHist h')) = sum_list (map unat (bHist h)) + 1"
      using i4 "1.prems"(6,9) rest by (simp add: h'_def byteAt_Some sum_bump)
    have len: "length (rHist h') = 256" "length (gHist h') = 256" "length (bHist h') = 256"
      using "1.prems"(4,5,6) by (simp_all add: h'_def)
    have IH: "sum_list (map unat (rHist (getHistogram_loop data (i + 4) h')))
           = sum_list (map unat (rHist h')) + (length data - (i + 4)) div 4
       \<and> sum_list (map unat (gHist (getHistogram_loop data (i + 4) h')))
           = sum_list (map unat (gHist h')) + (length data - (i + 4)) div 4
       \<and> sum_list (map unat (bHist (getHistogram_loop data (i + 4) h')))
           = sum_list (map unat (bHist h')) + (length data - (i + 4)) div 4"
      unfolding h'_def
    proof (rule "1.IH"[OF True], goal_cases)
      case 1 show ?case by (rule "1.prems"(1))
    next
      case 2 show ?case using "1.prems"(2) by simp
    next
      case 3 show ?case by (rule i4)
    next
      case 4 show ?case using len(1) by (simp add: h'_def)
    next
      case 5 show ?case using len(2) by (simp add: h'_def)
    next
      case 6 show ?case using len(3) by (simp add: h'_def)
    next
      case 7 show ?case using sr "1.prems"(7) rest by (simp add: h'_def)
    next
      case 8 show ?case using sg "1.prems"(8) rest by (simp add: h'_def)
    next
      case 9 show ?case using sb "1.prems"(9) rest by (simp add: h'_def)
    qed
    show ?thesis unfolding step using IH sr sg sb rest by simp
  qed
qed

lemma getHistogram_loop_alpha:
  assumes "length data' = length data" "4 dvd i"
    and "\<And>j. j < length data \<Longrightarrow> j mod 4 \<noteq> 3 \<Longrightarrow> data' ! j = data ! j"
  shows "getHistogram_loop data' i h = getHistogram_loop data i h"
  using assms
proof (induction data i h rule: getHistogram_loop.induct)
  case (1 data i h)
  show ?case
  proof (cases "i < length data")
    case False
    then show ?thesis using "1.prems"(1)
      by (simp add: getHistogram_loop_stop)
  next
    case True
    have m: "i mod 4 = 0" "(i + 1) mod 4 = 1" "(i + 2) mod 4 = 2"
      using "1.prems"(2) by presburger+
    have b: "byteAt data' i = byteAt data i" "byteAt data' (i + 1) = byteAt data (i + 1)"
      "byteAt data' (i + 2) = byteAt data (i + 2)"
      using "1.prems"(1) "1.prems"(3)[of i] "1.prems"(3)[of "i + 1"] "1.prems"(3)[of "i + 2"] m
      by (auto simp: byteAt_def)
    have T': "i < length data'" using True "1.prems"(1) by simp
    have "getHistogram_loop data' i h
        = getHistogram_loop data' (i + 4) \<lparr> rHist = bump (rHist h) (byteAt data' i),
               gHist = bump (gHist h) (byteAt data' (i + 1)),
               bHist = bump (bHist h) (byteAt data' (i + 2)) \<rparr>"
      by (rule getHistogram_loop_step[OF T'])
    also have "\<dots> = getHistogram_loop data' (i + 4) \<lparr> rHist = bump (rHist h) (byteAt data i),
               gHist = bump (gHist h) (byteAt data (i + 1)),
               bHist = bump (bHist h) (byteAt data (i + 2)) \<rparr>"
      by (simp only: b)
    also have "\<dots> = getHistogram_loop data (i + 4) \<lparr> rHist = bump (rHist h) (byteAt data i),
               gHist = bump (gHist h) (byteAt data (i + 1)),
               bHist = bump (bHist h) (byteAt data (i + 2)) \<rparr>"
      using "1.prems" by (intro "1.IH"[OF True]) auto
    also have "\<dots> = getHistogram_loop data i h"
      by (rule getHistogram_loop_step[OF True, symmetric])
    finally show ?thesis .
  qed
qed

section \<open>Lemmas: the CDF loop\<close>

lemma getCDF_loop_stop:
  "\<not> i < 256 \<Longrightarrow> getCDF_loop hist totalPixels i cumulative cdf = cdf"
  by (subst getCDF_loop.simps) simp

lemma getCDF_loop_step:
  "i < 256 \<Longrightarrow>
   getCDF_loop hist totalPixels i cumulative cdf =
     getCDF_loop hist totalPixels (i + 1) (fadd cumulative (countAt hist i))
       (cdf[i := toFloat32 (fdiv (fadd cumulative (countAt hist i)) totalPixels)])"
  by (subst getCDF_loop.simps) (simp add: Let_def)

lemma length_getCDF_loop [simp]:
  "length (getCDF_loop hist totalPixels i cumulative cdf) = length cdf"
proof (induction hist totalPixels i cumulative cdf rule: getCDF_loop.induct)
  case (1 hist totalPixels i cumulative cdf)
  show ?case
  proof (cases "i < 256")
    case True
    then show ?thesis using "1.IH"[OF True refl] by (simp add: getCDF_loop_step)
  next
    case False
    then show ?thesis by (simp add: getCDF_loop_stop)
  qed
qed

lemma length_getCDF [simp]: "length (getCDF hist totalPixels) = 256"
  by (simp add: getCDF_def)

text \<open>Entry \<open>j\<close> of the result: untouched below the start index, otherwise the running
  sum up to \<open>j\<close> divided by the total and rounded to binary32.\<close>

lemma getCDF_loop_nth:
  assumes "j < length cdf" "j < 256"
  shows "getCDF_loop hist totalPixels i cumulative cdf ! j =
           (if j < i then cdf ! j
            else toFloat32 (fdiv (foldl fadd cumulative (map (countAt hist) [i..<Suc j]))
                                 totalPixels))"
  using assms
proof (induction hist totalPixels i cumulative cdf rule: getCDF_loop.induct)
  case (1 hist totalPixels i cumulative cdf)
  show ?case
  proof (cases "i < 256")
    case False
    then show ?thesis using "1.prems" by (simp add: getCDF_loop_stop)
  next
    case True
    define c' where "c' = fadd cumulative (countAt hist i)"
    define cdf' where "cdf' = cdf[i := toFloat32 (fdiv c' totalPixels)]"
    have step: "getCDF_loop hist totalPixels i cumulative cdf
                  = getCDF_loop hist totalPixels (i + 1) c' cdf'"
      using True by (simp add: getCDF_loop_step c'_def cdf'_def)
    have IH: "getCDF_loop hist totalPixels (i + 1) c' cdf' ! j =
           (if j < i + 1 then cdf' ! j
            else toFloat32 (fdiv (foldl fadd c' (map (countAt hist) [i + 1..<Suc j]))
                                 totalPixels))"
      unfolding c'_def cdf'_def
      by (rule "1.IH"[OF True refl]) (use "1.prems" in simp_all)
    consider "j < i" | "j = i" | "i < j" by linarith
    then show ?thesis
    proof cases
      case 1
      then show ?thesis unfolding step IH by (simp add: cdf'_def)
    next
      case 2
      then show ?thesis unfolding step IH using "1.prems" by (simp add: cdf'_def c'_def)
    next
      case 3
      then have "[i..<Suc j] = i # [i + 1..<Suc j]" by (simp add: upt_conv_Cons)
      then show ?thesis unfolding step IH using 3 by (simp add: c'_def)
    qed
  qed
qed

lemma sum_list_unat_bound:
  fixes xs :: "32 word list"
  shows "sum_list (map unat xs) \<le> length xs * 2 ^ 32"
proof (induction xs)
  case Nil
  show ?case by simp
next
  case (Cons x xs)
  have "unat x < 2 ^ 32" using unsigned_less[of x] by simp
  then show ?case using Cons by simp
qed

text \<open>The running sum of up to 256 counts stays below \<open>2 ^ 53\<close>, so no addition rounds.\<close>

lemma cumulative_exact:
  assumes "n \<le> length hist" "n \<le> 256"
  shows "foldl fadd (Finite 0) (map (countAt hist) [0..<n])
           = Finite (of_nat (sum_list (map unat (take n hist))))"
  using assms
proof (induction n)
  case 0
  show ?case by simp
next
  case (Suc n)
  define s where "s = sum_list (map unat (take n hist))"
  have IH: "foldl fadd (Finite 0) (map (countAt hist) [0..<n]) = Finite (of_nat s)"
    using Suc by (simp add: s_def)
  have n: "n < length hist" using Suc.prems by simp
  have tk: "take (Suc n) hist = take n hist @ [hist ! n]"
    using n by (rule take_Suc_conv_app_nth)
  have "s \<le> length (take n hist) * 2 ^ 32" unfolding s_def by (rule sum_list_unat_bound)
  also have "\<dots> \<le> 255 * 2 ^ 32" using Suc.prems by simp
  finally have s: "s \<le> 255 * 2 ^ 32" .
  have "unat (hist ! n) < 2 ^ 32" using unsigned_less[of "hist ! n"] by simp
  then have small: "s + unat (hist ! n) < 2 ^ 53" using s by simp
  have "fadd (Finite (of_nat s)) (countAt hist n) = round64 (of_nat (s + unat (hist ! n)))"
    using n by (simp add: countAt_def)
  also have "\<dots> = Finite (of_nat (s + unat (hist ! n)))"
    using small by (rule round64_of_nat)
  finally show ?case by (simp add: IH tk s_def)
qed

lemma getCDF_nth:
  assumes "length hist = 256" "j < 256"
  shows "getCDF hist totalPixels ! j =
           toFloat32 (fdiv (Finite (of_nat (sum_list (map unat (take (Suc j) hist))))) totalPixels)"
proof -
  have "getCDF hist totalPixels ! j =
          toFloat32 (fdiv (foldl fadd (Finite 0) (map (countAt hist) [0..<Suc j])) totalPixels)"
    unfolding getCDF_def using assms(2) by (subst getCDF_loop_nth) simp_all
  also have "foldl fadd (Finite 0) (map (countAt hist) [0..<Suc j])
               = Finite (of_nat (sum_list (map unat (take (Suc j) hist))))"
    using assms by (intro cumulative_exact) simp_all
  finally show ?thesis .
qed

lemma sum_list_take_mono:
  fixes xs :: "nat list"
  assumes "a \<le> b"
  shows "sum_list (take a xs) \<le> sum_list (take b xs)"
proof -
  have "take b xs = take a xs @ take (b - a) (drop a xs)"
    using assms by (metis le_add_diff_inverse take_add)
  then show ?thesis by simp
qed

text \<open>Dividing a count by a positive total and rounding twice keeps the order.\<close>

lemma quotient_mono:
  assumes "a \<le> b" "0 < n"
  shows "fle (toFloat32 (fdiv (Finite (of_nat a)) (Finite (of_nat n))))
             (toFloat32 (fdiv (Finite (of_nat b)) (Finite (of_nat n))))"
proof -
  have q: "(of_nat a :: rat) / of_nat n \<le> of_nat b / of_nat n"
    using assms by (simp add: divide_right_mono)
  have q0: "0 \<le> (of_nat a :: rat) / of_nat n" by simp
  have "fle (round64 (of_nat a / of_nat n)) (round64 (of_nat b / of_nat n))"
    unfolding round64_def using q0 q by (rule roundFloat_mono) simp
  moreover have "fle (Finite 0) (round64 (of_nat a / of_nat n))"
    unfolding round64_def using q0 by (rule roundFloat_nonneg) simp
  ultimately have "fle (toFloat32 (round64 (of_nat a / of_nat n)))
                       (toFloat32 (round64 (of_nat b / of_nat n)))"
    by (rule toFloat32_mono[rotated])
  then show ?thesis using assms(2) by simp
qed

lemma quotient_nonneg:
  assumes "0 < n"
  shows "fle (Finite 0) (toFloat32 (fdiv (Finite (of_nat a)) (Finite (of_nat n))))"
proof -
  have "fle (Finite 0) (round64 (of_nat a / of_nat n))"
    unfolding round64_def by (rule roundFloat_nonneg) simp_all
  then have "fle (Finite 0) (toFloat32 (round64 (of_nat a / of_nat n)))"
    by (rule toFloat32_nonneg)
  then show ?thesis using assms by simp
qed

lemma quotient_one:
  assumes "0 < n"
  shows "toFloat32 (fdiv (Finite (of_nat n)) (Finite (of_nat n))) = Finite 1"
  using assms by simp

lemma getCDF_mono:
  assumes "length hist = 256" "0 < n" "i \<le> j" "j < 256"
  shows "fle (getCDF hist (Finite (of_nat n)) ! i) (getCDF hist (Finite (of_nat n)) ! j)"
proof -
  have "sum_list (take (Suc i) (map unat hist)) \<le> sum_list (take (Suc j) (map unat hist))"
    using assms(3) by (intro sum_list_take_mono) simp
  then have "sum_list (map unat (take (Suc i) hist)) \<le> sum_list (map unat (take (Suc j) hist))"
    by (simp add: take_map)
  then show ?thesis using assms by (simp add: getCDF_nth quotient_mono del: fdiv.simps)
qed

section \<open>Lemmas: the cursor of the Channel Mapper\<close>

lemma advance_stop:
  "\<not> (refIdx < 255 \<and> fless (numAt refCdf refIdx) s) \<Longrightarrow> advance refCdf s refIdx = refIdx"
  by (subst advance.simps) auto

lemma advance_step:
  "refIdx < 255 \<Longrightarrow> fless (numAt refCdf refIdx) s \<Longrightarrow>
   advance refCdf s refIdx = advance refCdf s (refIdx + 1)"
  by (subst advance.simps) simp

text \<open>The cursor never moves backward and never passes 255.\<close>

lemma advance_ge: "refIdx \<le> advance refCdf s refIdx"
proof (induction refCdf s refIdx rule: advance.induct)
  case (1 refCdf s refIdx)
  show ?case
  proof (cases "refIdx < 255 \<and> fless (numAt refCdf refIdx) s")
    case True
    then show ?thesis using "1.IH"[OF True] by (simp add: advance_step)
  next
    case False
    then show ?thesis by (simp add: advance_stop)
  qed
qed

lemma advance_le: "refIdx \<le> 255 \<Longrightarrow> advance refCdf s refIdx \<le> 255"
proof (induction refCdf s refIdx rule: advance.induct)
  case (1 refCdf s refIdx)
  show ?case
  proof (cases "refIdx < 255 \<and> fless (numAt refCdf refIdx) s")
    case True
    then show ?thesis using "1.IH"[OF True] by (simp add: advance_step)
  next
    case False
    then show ?thesis using "1.prems" by (simp add: advance_stop)
  qed
qed

text \<open>Every position the cursor has left holds a reference value less than \<open>s\<close>.\<close>

lemma advance_passed:
  "refIdx \<le> u \<Longrightarrow> u < advance refCdf s refIdx \<Longrightarrow> fless (numAt refCdf u) s"
proof (induction refCdf s refIdx rule: advance.induct)
  case (1 refCdf s refIdx)
  show ?case
  proof (cases "refIdx < 255 \<and> fless (numAt refCdf refIdx) s")
    case True
    show ?thesis
    proof (cases "u = refIdx")
      case True
      then show ?thesis using \<open>refIdx < 255 \<and> fless (numAt refCdf refIdx) s\<close> by simp
    next
      case False
      then have "refIdx + 1 \<le> u" using "1.prems"(1) by simp
      moreover have "u < advance refCdf s (refIdx + 1)"
        using "1.prems"(2) True by (simp add: advance_step)
      ultimately show ?thesis by (rule "1.IH"[OF True])
    qed
  next
    case False
    then show ?thesis using "1.prems" by (simp add: advance_stop)
  qed
qed

text \<open>The cursor stops at the first position from which it cannot move on.\<close>

lemma advance_first:
  assumes "refIdx \<le> v"
    and "\<And>u. refIdx \<le> u \<Longrightarrow> u < v \<Longrightarrow> fless (numAt refCdf u) s"
    and "v = 255 \<or> (v < 255 \<and> \<not> fless (numAt refCdf v) s)"
  shows "advance refCdf s refIdx = v"
  using assms
proof (induction refCdf s refIdx rule: advance.induct)
  case (1 refCdf s refIdx)
  show ?case
  proof (cases "refIdx = v")
    case True
    then show ?thesis using "1.prems"(3) by (auto simp: advance_stop)
  next
    case False
    then have lt: "refIdx < v" using "1.prems"(1) by simp
    then have c: "refIdx < 255 \<and> fless (numAt refCdf refIdx) s"
      using "1.prems"(2)[of refIdx] "1.prems"(3) by auto
    have "advance refCdf s (refIdx + 1) = v"
      using lt "1.prems"(2,3) by (intro "1.IH"[OF c]) auto
    then show ?thesis using c by (simp add: advance_step)
  qed
qed

lemma createMapping_loop_stop:
  "\<not> srcIdx < 256 \<Longrightarrow> createMapping_loop sourceCdf refCdf srcIdx refIdx mapping = mapping"
  by (subst createMapping_loop.simps) simp

lemma createMapping_loop_step:
  "srcIdx < 256 \<Longrightarrow>
   createMapping_loop sourceCdf refCdf srcIdx refIdx mapping =
     createMapping_loop sourceCdf refCdf (srcIdx + 1)
       (advance refCdf (numAt sourceCdf srcIdx) refIdx)
       (mapping[srcIdx := of_nat (advance refCdf (numAt sourceCdf srcIdx) refIdx)])"
  by (subst createMapping_loop.simps) (simp add: Let_def)

lemma length_createMapping_loop [simp]:
  "length (createMapping_loop sourceCdf refCdf srcIdx refIdx mapping) = length mapping"
proof (induction sourceCdf refCdf srcIdx refIdx mapping rule: createMapping_loop.induct)
  case (1 sourceCdf refCdf srcIdx refIdx mapping)
  show ?case
  proof (cases "srcIdx < 256")
    case True
    then show ?thesis using "1.IH"[OF True refl] by (simp add: createMapping_loop_step)
  next
    case False
    then show ?thesis by (simp add: createMapping_loop_stop)
  qed
qed

lemma length_createMapping [simp]: "length (createMapping sourceCdf refCdf) = 256"
  by (simp add: createMapping_def)

text \<open>Entries below the current source index are final.\<close>

lemma createMapping_loop_old:
  "j < srcIdx \<Longrightarrow>
   createMapping_loop sourceCdf refCdf srcIdx refIdx mapping ! j = mapping ! j"
proof (induction sourceCdf refCdf srcIdx refIdx mapping rule: createMapping_loop.induct)
  case (1 sourceCdf refCdf srcIdx refIdx mapping)
  show ?case
  proof (cases "srcIdx < 256")
    case True
    then show ?thesis using "1.IH"[OF True refl] "1.prems"
      by (simp add: createMapping_loop_step)
  next
    case False
    then show ?thesis by (simp add: createMapping_loop_stop)
  qed
qed

lemma unat_of_nat_byte: "n \<le> 255 \<Longrightarrow> unat (of_nat n :: 8 word) = n"
  by (simp add: unat_of_nat)

text \<open>The entry written at the current source index is the advanced cursor.\<close>

lemma createMapping_loop_here:
  assumes "srcIdx < 256" "length mapping = 256" "refIdx \<le> 255"
  shows "unat (createMapping_loop sourceCdf refCdf srcIdx refIdx mapping ! srcIdx)
           = advance refCdf (numAt sourceCdf srcIdx) refIdx"
proof -
  have "advance refCdf (numAt sourceCdf srcIdx) refIdx \<le> 255"
    using assms(3) by (rule advance_le)
  then show ?thesis using assms
    by (simp add: createMapping_loop_step createMapping_loop_old unat_of_nat_byte)
qed

text \<open>From any state of the loop on, the entries still to be written are at least the
  cursor and non-decreasing.\<close>

lemma createMapping_loop_mono:
  assumes "length mapping = 256" "refIdx \<le> 255" "srcIdx \<le> i" "i \<le> j" "j < 256"
  shows "refIdx \<le> unat (createMapping_loop sourceCdf refCdf srcIdx refIdx mapping ! i)
       \<and> unat (createMapping_loop sourceCdf refCdf srcIdx refIdx mapping ! i)
           \<le> unat (createMapping_loop sourceCdf refCdf srcIdx refIdx mapping ! j)"
  using assms
proof (induction sourceCdf refCdf srcIdx refIdx mapping arbitrary: i j
       rule: createMapping_loop.induct)
  case (1 sourceCdf refCdf srcIdx refIdx mapping)
  have lt: "srcIdx < 256" using "1.prems" by simp
  define c where "c = advance refCdf (numAt sourceCdf srcIdx) refIdx"
  define m where "m = mapping[srcIdx := of_nat c :: 8 word]"
  define res where "res = createMapping_loop sourceCdf refCdf srcIdx refIdx mapping"
  have step: "res = createMapping_loop sourceCdf refCdf (srcIdx + 1) c m"
    using lt by (simp add: res_def createMapping_loop_step c_def m_def)
  have c: "refIdx \<le> c" "c \<le> 255"
    using "1.prems"(2) by (simp_all add: c_def advance_ge advance_le)
  have here: "unat (res ! srcIdx) = c"
    unfolding res_def c_def using lt "1.prems"(1,2) by (rule createMapping_loop_here)
  have later: "c \<le> unat (res ! a) \<and> unat (res ! a) \<le> unat (res ! b)"
    if "srcIdx + 1 \<le> a" "a \<le> b" "b < 256" for a b
    unfolding step c_def m_def
    by (rule "1.IH"[OF lt refl]) (use that c "1.prems"(1) in \<open>simp_all add: c_def\<close>)
  show ?case
  proof (cases "i = srcIdx")
    case True
    show ?thesis
    proof (cases "j = srcIdx")
      case True
      then show ?thesis using \<open>i = srcIdx\<close> here c by (simp add: res_def)
    next
      case False
      then have "srcIdx + 1 \<le> j" using "1.prems" True by simp
      from later[OF this le_refl "1.prems"(5)] show ?thesis
        using True here c by (simp add: res_def)
    qed
  next
    case False
    then have "srcIdx + 1 \<le> i" using "1.prems" by simp
    from later[OF this "1.prems"(4,5)] show ?thesis using c by (simp add: res_def)
  qed
qed

text \<open>
  If the source CDF does not decrease up to index \<open>s\<close> and \<open>v\<close> is the first reference
  value whose CDF is not less than the source CDF at \<open>s\<close>, the loop writes \<open>v\<close> at \<open>s\<close>,
  provided the cursor has not passed \<open>v\<close> yet.
\<close>

lemma createMapping_loop_first:
  assumes "length mapping = 256" "srcIdx \<le> s" "s < 256" "refIdx \<le> v"
    and "\<And>a. srcIdx \<le> a \<Longrightarrow> a \<le> s \<Longrightarrow> fle (numAt sourceCdf a) (numAt sourceCdf s)"
    and "\<And>u. u < v \<Longrightarrow> fless (numAt refCdf u) (numAt sourceCdf s)"
    and "v = 255 \<or> (v < 255 \<and> \<not> fless (numAt refCdf v) (numAt sourceCdf s))"
  shows "unat (createMapping_loop sourceCdf refCdf srcIdx refIdx mapping ! s) = v"
  using assms
proof (induction sourceCdf refCdf srcIdx refIdx mapping rule: createMapping_loop.induct)
  case (1 sourceCdf refCdf srcIdx refIdx mapping)
  have lt: "srcIdx < 256" using "1.prems" by simp
  have v: "v \<le> 255" using "1.prems"(7) by auto
  then have r: "refIdx \<le> 255" using "1.prems"(4) by simp
  define c where "c = advance refCdf (numAt sourceCdf srcIdx) refIdx"
  show ?case
  proof (cases "srcIdx = s")
    case True
    have "advance refCdf (numAt sourceCdf s) refIdx = v"
      using "1.prems"(4) "1.prems"(6) "1.prems"(7) by (intro advance_first) auto
    then show ?thesis
      using True createMapping_loop_here[OF lt "1.prems"(1) r, of sourceCdf refCdf] by simp
  next
    case False
    have cv: "c \<le> v"
    proof (rule ccontr)
      assume "\<not> c \<le> v"
      then have "v < c" by simp
      then have "fless (numAt refCdf v) (numAt sourceCdf srcIdx)"
        unfolding c_def using "1.prems"(4) by (intro advance_passed) auto
      moreover have "fle (numAt sourceCdf srcIdx) (numAt sourceCdf s)"
        using "1.prems"(2) by (intro "1.prems"(5)) auto
      ultimately have "fless (numAt refCdf v) (numAt sourceCdf s)" by (rule fless_fle_trans)
      moreover have "c \<le> 255" unfolding c_def using r by (rule advance_le)
      ultimately show False using "1.prems"(7) \<open>v < c\<close> by auto
    qed
    have "unat (createMapping_loop sourceCdf refCdf (srcIdx + 1) c
                 (mapping[srcIdx := of_nat c]) ! s) = v"
      unfolding c_def
    proof (rule "1.IH"[OF lt refl], goal_cases)
      case 1 show ?case using "1.prems"(1) by simp
    next
      case 2 show ?case using False "1.prems"(2) by simp
    next
      case 3 show ?case by (rule "1.prems"(3))
    next
      case 4 show ?case using cv by (simp add: c_def)
    next
      case (5 a) then show ?case by (intro "1.prems"(5)) auto
    next
      case (6 u) then show ?case by (rule "1.prems"(6))
    next
      case 7 show ?case by (rule "1.prems"(7))
    qed
    then show ?thesis using lt by (simp add: createMapping_loop_step c_def)
  qed
qed

section \<open>Lemmas: grid values and their text\<close>

lemma ilog2_unique:
  assumes "0 < x" "2 powi e \<le> x" "x < 2 powi (e + 1)"
  shows "ilog2 x = e"
proof -
  have lo: "2 powi (ilog2 x) \<le> x" and hi: "x < 2 powi (ilog2 x + 1)"
    using assms(1) by (rule ilog2_bounds)+
  have "ilog2 x < e + 1"
  proof (rule ccontr)
    assume "\<not> ilog2 x < e + 1"
    then have "(2::rat) powi (e + 1) \<le> 2 powi (ilog2 x)" by (intro power_int_increasing) auto
    then show False using lo assms(3) by linarith
  qed
  moreover have "e < ilog2 x + 1"
  proof (rule ccontr)
    assume "\<not> e < ilog2 x + 1"
    then have "(2::rat) powi (ilog2 x + 1) \<le> 2 powi e" by (intro power_int_increasing) auto
    then show False using hi assms(2) by linarith
  qed
  ultimately show ?thesis by simp
qed

lemma ilog2_scale:
  assumes "0 < x"
  shows "ilog2 (x * 2 powi k) = ilog2 x + k"
proof (rule ilog2_unique)
  show "0 < x * 2 powi k" using assms by simp
  have "2 powi (ilog2 x + k) = 2 powi (ilog2 x) * (2::rat) powi k"
    by (rule power_int_add) simp
  also have "\<dots> \<le> x * 2 powi k"
    using ilog2_bounds(1)[OF assms] by (intro mult_right_mono) auto
  finally show "2 powi (ilog2 x + k) \<le> x * 2 powi k" .
  have "x * 2 powi k < 2 powi (ilog2 x + 1) * 2 powi k"
    using ilog2_bounds(2)[OF assms] by (intro mult_strict_right_mono) auto
  also have "\<dots> = 2 powi (ilog2 x + k + 1)"
    by (subst power_int_add[symmetric]) (auto simp: algebra_simps)
  finally show "x * 2 powi k < 2 powi (ilog2 x + k + 1)" .
qed

text \<open>Scaling by a power of two commutes with rounding, within the normal range.\<close>

lemma roundPos_scale:
  assumes "0 < x" "emin \<le> ilog2 x" "emin \<le> ilog2 x + k"
  shows "roundPos p emin (x * 2 powi k) = roundPos p emin x * 2 powi k"
proof -
  define u :: rat where "u = 2 powi (ilog2 x - int p + 1)"
  have u': "2 powi (ilog2 x + k - int p + 1) = u * 2 powi k"
    unfolding u_def by (subst power_int_add[symmetric]) (auto simp: algebra_simps)
  have q: "x * 2 powi k / (u * 2 powi k) = x / u" by simp
  have m1: "max (ilog2 x) emin = ilog2 x" using assms(2) by simp
  have m2: "max (ilog2 x + k) emin = ilog2 x + k" using assms(3) by simp
  show ?thesis
    by (simp add: roundPos_def Let_def ilog2_scale[OF assms(1)] m1 m2 u' q u_def[symmetric]
             del: times_divide_eq_left times_divide_eq_right)
qed

lemma roundFloat_dyadic:
  assumes m: "m < 2 ^ p" and emin: "emin \<le> - int j" and emax: "int p \<le> emax + 1"
  shows "roundFloat p emin emax (of_nat m / 2 ^ j) = Finite (of_nat m / 2 ^ j)"
proof (cases "m = 0")
  case True
  then show ?thesis by (simp add: roundFloat_def)
next
  case False
  then have m0: "0 < m" by simp
  have x0: "0 < (of_nat m :: rat)" using m0 by simp
  have e0: "0 \<le> ilog2 (of_nat m)" using m0 by (intro ilog2_of_nat_nonneg) simp
  have pw: "(2::rat) powi (- int j) = 1 / 2 ^ j" by (simp add: power_int_minus_divide)
  have "roundPos p emin (of_nat m * 2 powi (- int j)) = roundPos p emin (of_nat m) * 2 powi (- int j)"
    using x0 e0 emin by (intro roundPos_scale) auto
  also have "roundPos p emin (of_nat m) = of_nat m"
    using m0 m emin by (intro roundPos_of_nat) auto
  finally have r: "roundPos p emin (of_nat m / 2 ^ j) = of_nat m / 2 ^ j"
    by (simp add: pw)
  have "(1::rat) \<le> 2 ^ j" by simp
  then have "(of_nat m :: rat) * 1 \<le> of_nat m * 2 ^ j" by (intro mult_left_mono) auto
  then have "(of_nat m :: rat) / 2 ^ j \<le> of_nat m" by (simp add: field_simps)
  also have "(of_nat m :: rat) < 2 powi (int p)" using m
    by (metis of_nat_less_iff of_nat_numeral of_nat_power power_int_of_nat)
  also have "\<dots> \<le> 2 powi (emax + 1)" using emax by (intro power_int_increasing) auto
  finally have "\<not> 2 powi (emax + 1) \<le> (of_nat m :: rat) / 2 ^ j" by simp
  then show ?thesis using m0 by (simp add: roundFloat_def r)
qed

lemma round64_dyadic: "m < 2 ^ 53 \<Longrightarrow> j \<le> 1022 \<Longrightarrow> round64 (of_nat m / 2 ^ j) = Finite (of_nat m / 2 ^ j)"
  unfolding round64_def by (rule roundFloat_dyadic) auto

text \<open>The grid value \<open>i / (LUT_SIZE - 1)\<close> is the exact quotient \<open>i / 32\<close>.\<close>

lemma grid_value:
  assumes "i < 2 ^ 53"
  shows "fdiv (Finite (of_nat i)) (fsub (Finite (of_nat LUT_SIZE)) (Finite 1)) = Finite (of_nat i / 32)"
proof -
  have "fsub (Finite (of_nat LUT_SIZE)) (Finite 1) = round64 (of_nat 32)"
    by (simp add: fsub_def LUT_SIZE_def)
  also have "\<dots> = Finite (of_nat 32)" by (rule round64_of_nat) simp
  finally have d: "fsub (Finite (of_nat LUT_SIZE)) (Finite 1) = Finite 32" by simp
  have "round64 (of_nat i / 2 ^ 5) = Finite (of_nat i / 2 ^ 5)"
    using assms by (intro round64_dyadic) auto
  then show ?thesis by (simp add: d)
qed

lemma floor_numeral_quotient_rat:
  "\<lfloor>numeral a / numeral b :: rat\<rfloor> = numeral a div numeral b"
  by (metis floor_divide_of_int_eq of_int_numeral)

lemma natDigits_small: "n < 10 \<Longrightarrow> natDigits n = [''0123456789'' ! n]"
  by (subst natDigits.simps) simp

lemma natDigits_big:
  "\<not> n < 10 \<Longrightarrow> natDigits n = natDigits (n div 10) @ [''0123456789'' ! (n mod 10)]"
  by (subst natDigits.simps) simp

lemma replicate_numeral_Cons: "replicate (numeral k) x = x # replicate (pred_numeral k) x"
  by (simp add: numeral_eq_Suc)

lemma below_33_cases:
  assumes "i < (33::nat)"
  shows "i \<in> {0, 1, 2, 3, 4, 5, 6, 7, 8, 9, 10, 11, 12, 13, 14, 15, 16, 17, 18, 19, 20,
               21, 22, 23, 24, 25, 26, 27, 28, 29, 30, 31, 32}"
  unfolding insert_iff empty_iff using assms by presburger

lemma axis_text:
  assumes "i < 33"
  shows "toFixed 6 (Finite (of_nat i / 32)) = axisText ! i"
  using below_33_cases[OF assms]
  by (elim insertE emptyE)
     (simp_all add: fixedDigits_def natDigits_small natDigits_big Let_def
        floor_numeral_quotient_rat axisText_def replicate_numeral_Cons)

lemma gridLine_text:
  assumes "r < 33" "g < 33" "b < 33"
  shows "gridLine r g b = axisText ! r @ '' '' @ axisText ! g @ '' '' @ axisText ! b @ ''\<newline>''"
  using assms by (simp add: gridLine_def grid_value axis_text del: toFixed.simps)

section \<open>Lemmas: the LUT text and the blending loop\<close>

subsection \<open>generateLUTData\<close>

lemma fold_append:
  "fold (\<lambda>x cube. cube @ f x) xs cube = cube @ concat (map f xs)"
  by (induction xs arbitrary: cube) simp_all

lemma fold_fold_append:
  "fold (\<lambda>x cube. fold (\<lambda>y cube. cube @ f x y) ys cube) xs cube
     = cube @ concat (map (\<lambda>x. concat (map (f x) ys)) xs)"
  by (induction xs arbitrary: cube) (simp_all add: fold_append)

lemma fold_fold_fold_append:
  "fold (\<lambda>x cube. fold (\<lambda>y cube. fold (\<lambda>z cube. cube @ f x y z) zs cube) ys cube) xs cube
     = cube @ concat (map (\<lambda>x. concat (map (\<lambda>y. concat (map (f x y) zs)) ys)) xs)"
  by (induction xs arbitrary: cube) (simp_all add: fold_fold_append)

lemma concat_product:
  "concat (map (\<lambda>x. concat (map (f x) ys)) xs) = concat (map (\<lambda>(x, y). f x y) (List.product xs ys))"
  by (induction xs) (simp_all add: comp_def)

lemma concat_product3:
  "concat (map (\<lambda>x. concat (map (\<lambda>y. concat (map (f x y) zs)) ys)) xs)
     = concat (map (\<lambda>(x, y, z). f x y z) (List.product xs (List.product ys zs)))"
proof -
  have "concat (map (\<lambda>x. concat (map (\<lambda>y. concat (map (f x y) zs)) ys)) xs)
      = concat (map (\<lambda>x. concat (map (\<lambda>(y, z). f x y z) (List.product ys zs))) xs)"
    by (simp add: concat_product)
  also have "\<dots> = concat (map (\<lambda>(x, yz). (\<lambda>(y, z). f x y z) yz) (List.product xs (List.product ys zs)))"
    by (rule concat_product)
  finally show ?thesis by simp
qed

lemma natDigits_LUT_SIZE: "natDigits LUT_SIZE = ''33''"
  by (simp add: LUT_SIZE_def natDigits_small natDigits_big)

text \<open>The output is the header followed by the lines of the grid points, \<open>b\<close> outermost
  and \<open>r\<close> innermost.\<close>

lemma generateLUTData_lines:
  "generateLUTData sourceUrl refUrl intensity =
     ''TITLE '' @ [CHR 0x22] @ ''LuminaLUT Grade'' @ [CHR 0x22] @ ''\<newline>''
     @ ''LUT_3D_SIZE 33\<newline>\<newline>''
     @ concat (map (\<lambda>(b, g, r). gridLine r g b)
         (List.product [0..<33] (List.product [0..<33] [0..<33])))"
proof -
  have "concat (map (\<lambda>b. concat (map (\<lambda>g. concat (map (\<lambda>r. gridLine r g b) [0..<33])) [0..<33])) [0..<33])
      = concat (map (\<lambda>(b, g, r). gridLine r g b)
         (List.product [0..<33] (List.product [0..<33] [0..<33])))"
    by (rule concat_product3)
  then show ?thesis
    by (simp add: generateLUTData_def Let_def fold_fold_fold_append natDigits_LUT_SIZE
          LUT_SIZE_def[symmetric])
qed

lemma grid_member:
  assumes "(b, g, r) \<in> set (List.product [0..<33] (List.product [0..<33] [0..<33]))"
  shows "b < 33" "g < 33" "r < 33"
  using assms by auto

subsection \<open>The blending loop\<close>

lemma toUint8Clamp_nat:
  assumes "n < 256"
  shows "toUint8Clamp (Finite (of_nat n)) = of_nat n"
proof -
  have r: "roundTiesToEven (of_nat n) = int n"
    using roundTiesToEven_of_int[of "int n"] by simp
  consider "n = 0" | "n = 255" | "0 < n" "n < 255" using assms by linarith
  then show ?thesis
  proof cases
    case 1
    then show ?thesis by simp
  next
    case 2
    then show ?thesis by simp
  next
    case 3
    then have "\<not> (of_nat n :: rat) \<le> 0" "\<not> (255 :: rat) \<le> of_nat n"
      by (simp_all add: not_le)
    then show ?thesis by (simp add: r)
  qed
qed

lemma nat_difference:
  assumes "a < 256" "b < 256"
  shows "fsub (Finite (of_nat a)) (Finite (of_nat b)) = Finite (of_int (int a - int b))"
proof -
  have "\<bar>int a - int b\<bar> < 2 ^ 53" using assms by simp
  then have "round64 (of_int (int a - int b)) = Finite (of_int (int a - int b))"
    by (rule round64_of_int)
  then show ?thesis by (simp add: fsub_def)
qed

lemma blend_zero: "blend (Some s) (Some m) (Finite 0) = s"
proof -
  define a b where "a = unat s" and "b = unat m"
  have lt: "a < 256" "b < 256"
    using unsigned_less[of s] unsigned_less[of m] by (simp_all add: a_def b_def)
  have "fadd (Finite (of_nat a)) (fmul (fsub (Finite (of_nat b)) (Finite (of_nat a))) (Finite 0))
          = round64 (of_nat a)"
    by (simp add: nat_difference[OF lt(2) lt(1)])
  also have "\<dots> = Finite (of_nat a)" using lt(1) by (intro round64_of_nat) simp
  finally have "blend (Some s) (Some m) (Finite 0) = toUint8Clamp (Finite (of_nat a))"
    by (simp add: blend_def toNumber_def a_def b_def del: of_nat_unat)
  also have "\<dots> = of_nat a" using lt(1) by (rule toUint8Clamp_nat)
  finally show ?thesis by (simp add: a_def)
qed

lemma blend_one: "blend (Some s) (Some m) (Finite 1) = m"
proof -
  define a b where "a = unat s" and "b = unat m"
  have lt: "a < 256" "b < 256"
    using unsigned_less[of s] unsigned_less[of m] by (simp_all add: a_def b_def)
  have d: "\<bar>int b - int a\<bar> < 2 ^ 53" using lt by simp
  have "fadd (Finite (of_nat a)) (fmul (fsub (Finite (of_nat b)) (Finite (of_nat a))) (Finite 1))
          = fadd (Finite (of_nat a)) (round64 (of_int (int b - int a)))"
    by (simp add: nat_difference[OF lt(2) lt(1)])
  also have "\<dots> = fadd (Finite (of_nat a)) (Finite (of_int (int b - int a)))"
    by (simp only: round64_of_int[OF d])
  also have "\<dots> = round64 (of_nat b)" by simp
  also have "\<dots> = Finite (of_nat b)" using lt(2) by (intro round64_of_nat) simp
  finally have "blend (Some s) (Some m) (Finite 1) = toUint8Clamp (Finite (of_nat b))"
    by (simp add: blend_def toNumber_def a_def b_def del: of_nat_unat)
  also have "\<dots> = of_nat b" using lt(2) by (rule toUint8Clamp_nat)
  finally show ?thesis by (simp add: b_def)
qed

lemma applyMappings_loop_stop:
  "\<not> i < length data \<Longrightarrow> applyMappings_loop data mr mg mb intensity i resultData = resultData"
  by (subst applyMappings_loop.simps) simp

lemma applyMappings_loop_step:
  "i < length data \<Longrightarrow>
   applyMappings_loop data mr mg mb intensity i resultData =
     applyMappings_loop data mr mg mb intensity (i + 4)
       (resultData
          [i := blend (byteAt data i) (lookup mr (byteAt data i)) intensity,
           i + 1 := blend (byteAt data (i + 1)) (lookup mg (byteAt data (i + 1))) intensity,
           i + 2 := blend (byteAt data (i + 2)) (lookup mb (byteAt data (i + 2))) intensity,
           i + 3 := 255])"
  by (subst applyMappings_loop.simps) (simp add: Let_def)

lemma length_applyMappings_loop [simp]:
  "length (applyMappings_loop data mr mg mb intensity i resultData) = length resultData"
proof (induction data mr mg mb intensity i resultData rule: applyMappings_loop.induct)
  case (1 data mr mg mb intensity i resultData)
  show ?case
  proof (cases "i < length data")
    case True
    then show ?thesis using "1.IH"[OF True refl refl refl]
      by (simp add: applyMappings_loop_step)
  next
    case False
    then show ?thesis by (simp add: applyMappings_loop_stop)
  qed
qed

lemma length_applyMappings [simp]:
  "length (applyMappings data mr mg mb intensity) = length data"
  by (simp add: applyMappings_def)

lemma applyMappings_loop_nth:
  assumes "4 dvd i" "j < length resultData" "length resultData = length data"
  shows "applyMappings_loop data mr mg mb intensity i resultData ! j =
           (if j < i then resultData ! j else gradedSample data mr mg mb intensity j)"
  using assms
proof (induction data mr mg mb intensity i resultData rule: applyMappings_loop.induct)
  case (1 data mr mg mb intensity i resultData)
  show ?case
  proof (cases "i < length data")
    case False
    then show ?thesis using "1.prems" by (simp add: applyMappings_loop_stop)
  next
    case True
    define res' where "res' = resultData
          [i := blend (byteAt data i) (lookup mr (byteAt data i)) intensity,
           i + 1 := blend (byteAt data (i + 1)) (lookup mg (byteAt data (i + 1))) intensity,
           i + 2 := blend (byteAt data (i + 2)) (lookup mb (byteAt data (i + 2))) intensity,
           i + 3 := 255]"
    have step: "applyMappings_loop data mr mg mb intensity i resultData
                  = applyMappings_loop data mr mg mb intensity (i + 4) res'"
      unfolding res'_def using True by (rule applyMappings_loop_step)
    have IH: "applyMappings_loop data mr mg mb intensity (i + 4) res' ! j =
           (if j < i + 4 then res' ! j else gradedSample data mr mg mb intensity j)"
      unfolding res'_def
      by (rule "1.IH"[OF True refl refl refl]) (use "1.prems" in simp_all)
    have m: "i mod 4 = 0" "(i + 1) mod 4 = 1" "(i + 2) mod 4 = 2" "(i + 3) mod 4 = 3"
      using "1.prems"(1) by presburger+
    consider "j < i" | "j = i" | "j = i + 1" | "j = i + 2" | "j = i + 3" | "i + 4 \<le> j"
      by linarith
    then show ?thesis
    proof cases
      case 1
      then show ?thesis unfolding step IH by (simp add: res'_def)
    next
      case 2
      then show ?thesis unfolding step IH using "1.prems"(2) m
        by (simp add: res'_def gradedSample_def)
    next
      case 3
      then show ?thesis unfolding step IH using "1.prems"(2) m(2)
        by (simp add: res'_def gradedSample_def)
    next
      case 4
      then show ?thesis unfolding step IH using "1.prems"(2) m(3)
        by (simp add: res'_def gradedSample_def)
    next
      case 5
      then show ?thesis unfolding step IH using "1.prems"(2) m(4)
        by (simp add: res'_def gradedSample_def)
    next
      case 6
      then show ?thesis unfolding step IH by simp
    qed
  qed
qed

lemma applyMappings_nth:
  assumes "j < length data"
  shows "applyMappings data mr mg mb intensity ! j = gradedSample data mr mg mb intensity j"
  unfolding applyMappings_def using assms by (subst applyMappings_loop_nth) simp_all

lemma lookup_byte:
  assumes "length mapping = 256"
  shows "lookup mapping (Some w) = Some (mapping ! unat w)"
proof -
  have "unat w < 256" using unsigned_less[of w] by simp
  then show ?thesis using assms by (simp add: lookup_def byteAt_def)
qed

section \<open>Lemmas: a channel with a single value\<close>

lemma getHistogram_loop_single:
  assumes "4 dvd length data" "4 dvd i" "i \<le> length data" "length (rHist h) = 256"
    and "\<And>k. 4 * k < length data \<Longrightarrow> data ! (4 * k) = w"
  shows "rHist (getHistogram_loop data i h)
           = (rHist h)[unat w := rHist h ! unat w + of_nat ((length data - i) div 4)]"
  using assms
proof (induction data i h rule: getHistogram_loop.induct)
  case (1 data i h)
  show ?case
  proof (cases "i < length data")
    case False
    then show ?thesis using "1.prems" by (simp add: getHistogram_loop_stop)
  next
    case True
    have i4: "i + 4 \<le> length data"
      using True "1.prems"(1,2) by (elim dvdE) auto
    have rest: "(length data - i) div 4 = (length data - (i + 4)) div 4 + 1"
      using i4 by simp
    have "data ! (4 * (i div 4)) = w" using True "1.prems"(2) by (intro "1.prems"(5)) auto
    then have di: "data ! i = w" using "1.prems"(2) by simp
    have lw: "unat w < length (rHist h)"
      using unsigned_less[of w] "1.prems"(4) by simp
    define h' where "h' = \<lparr> rHist = bump (rHist h) (byteAt data i),
               gHist = bump (gHist h) (byteAt data (i + 1)),
               bHist = bump (bHist h) (byteAt data (i + 2)) \<rparr>"
    have r': "rHist h' = (rHist h)[unat w := rHist h ! unat w + 1]"
      using True by (simp add: h'_def byteAt_def bump_def di)
    have "rHist (getHistogram_loop data (i + 4) h')
           = (rHist h')[unat w := rHist h' ! unat w + of_nat ((length data - (i + 4)) div 4)]"
      unfolding h'_def
      by (rule "1.IH"[OF True]) (use "1.prems" i4 in \<open>simp_all\<close>)
    moreover have "getHistogram_loop data i h = getHistogram_loop data (i + 4) h'"
      unfolding h'_def using True by (rule getHistogram_loop_step)
    ultimately show ?thesis using lw
      by (simp add: r' rest add.assoc)
  qed
qed

lemma channelSamples_nth:
  assumes "k < length data div 4"
  shows "channelSamples c data ! k = data ! (4 * k + c)"
  using assms by (simp add: channelSamples_def)

lemma rHist_single:
  assumes "4 dvd length data" "channelSamples 0 data = replicate (length data div 4) w"
  shows "rHist (getHistogram data) = (replicate 256 0)[unat w := of_nat (length data div 4)]"
proof -
  have "data ! (4 * k) = w" if "4 * k < length data" for k
  proof -
    have k: "k < length data div 4" using that assms(1) by (elim dvdE) auto
    moreover have "channelSamples 0 data ! k = data ! (4 * k)"
      using channelSamples_nth[OF k, of 0] by simp
    ultimately show ?thesis using assms(2) by simp
  qed
  then have "rHist (getHistogram_loop data 0
                \<lparr> rHist = replicate 256 0, gHist = replicate 256 0, bHist = replicate 256 0 \<rparr>)
      = (replicate 256 0)[unat w := replicate 256 0 ! unat w + of_nat ((length data - 0) div 4)]"
    using assms(1) by (subst getHistogram_loop_single[where w = w]) simp_all
  moreover have "unat w < 256" using unsigned_less[of w] by simp
  ultimately show ?thesis by (simp add: getHistogram_def)
qed

lemma sum_replicate_update:
  fixes v :: "32 word"
  shows "sum_list (map unat ((replicate m 0)[k := v])) = (if k < m then unat v else 0)"
proof (cases "k < m")
  case True
  have "sum_list (map unat ((replicate m (0::32 word))[k := v]))
          = sum_list ((map unat (replicate m (0::32 word)))[k := unat v])"
    by (simp add: map_update)
  also have "\<dots> = sum_list (map unat (replicate m (0::32 word))) + unat v
                      - map unat (replicate m (0::32 word)) ! k"
    using True by (subst sum_list_update) simp_all
  also have "\<dots> = unat v" using True by simp
  finally show ?thesis using True by simp
next
  case False
  then show ?thesis by (simp add: list_update_beyond)
qed

lemma sum_single:
  fixes v :: "32 word"
  assumes "k < 256" "j < 256"
  shows "sum_list (map unat (take (Suc j) ((replicate 256 0)[k := v])))
           = (if k \<le> j then unat v else 0)"
proof -
  define m where "m = Suc j"
  have "take m ((replicate 256 (0::32 word))[k := v]) = (replicate m 0)[k := v]"
    using assms by (simp add: take_update_swap min_def m_def del: replicate_Suc replicate.simps)
  then have "sum_list (map unat (take m ((replicate 256 (0::32 word))[k := v])))
               = (if k < m then unat v else 0)"
    by (simp only: sum_replicate_update)
  then show ?thesis by (simp add: m_def less_Suc_eq_le)
qed

text \<open>The CDF of a channel in which all \<open>n\<close> pixels have the value \<open>k\<close>: 0 below \<open>k\<close>,
  1 from \<open>k\<close> on.\<close>

lemma getCDF_single:
  assumes "k < 256" "j < 256" "0 < n" "n < 2 ^ 32"
  shows "getCDF ((replicate 256 0)[k := of_nat n]) (Finite (of_nat n)) ! j
           = (if k \<le> j then Finite 1 else Finite 0)"
proof -
  have u: "unat (of_nat n :: 32 word) = n" using assms(4) by (simp add: unat_of_nat)
  show ?thesis using assms(3)
    by (simp add: getCDF_nth assms(2) sum_single[OF assms(1,2)] u)
qed

section \<open>The Channel Mapper and the Distribution Normalizer\<close>

lemma numAt_nth: "i < length xs \<Longrightarrow> numAt xs i = xs ! i"
  by (simp add: numAt_def)

text \<open>The entry at a source index is the first reference index whose CDF is not less
  than the source CDF there, when the source CDF does not decrease.\<close>

lemma createMapping_first:
  assumes "length sourceCdf = 256" "length refCdf = 256"
    and "\<And>a b. a \<le> b \<Longrightarrow> b < 256 \<Longrightarrow> fle (sourceCdf ! a) (sourceCdf ! b)"
    and "s < 256" "v < 256"
    and "\<not> fless (refCdf ! v) (sourceCdf ! s)"
    and "\<And>u. u < v \<Longrightarrow> fless (refCdf ! u) (sourceCdf ! s)"
  shows "unat (createMapping sourceCdf refCdf ! s) = v"
  unfolding createMapping_def
proof (rule createMapping_loop_first)
  show "length (replicate 256 (0::8 word)) = 256" by simp
  show "0 \<le> s" "s < 256" "0 \<le> v" using assms by simp_all
  show "fle (numAt sourceCdf a) (numAt sourceCdf s)" if "0 \<le> a" "a \<le> s" for a
    using that assms(1,4) assms(3)[of a s] by (simp add: numAt_nth)
  show "fless (numAt refCdf u) (numAt sourceCdf s)" if "u < v" for u
    using that assms(1,2,4,5) assms(7)[of u] by (simp add: numAt_nth)
  show "v = 255 \<or> v < 255 \<and> \<not> fless (numAt refCdf v) (numAt sourceCdf s)"
    using assms(1,2,4,5,6) by (cases "v = 255") (simp_all add: numAt_nth)
qed

text \<open>
  Claim C1. For every pair of CDF arrays given to the Channel Mapper, the resulting mapping
  is non-decreasing in the source value: for all source indices \<open>i < j\<close> in 0..255,
  \<open>mapping[i] \<le> mapping[j]\<close>. It holds for arrays of any length and content, NaN
  included, since the cursor only moves forward.
\<close>

theorem createMapping_monotone:
  assumes "i < j" "j < 256"
  shows "unat (createMapping sourceCdf refCdf ! i) \<le> unat (createMapping sourceCdf refCdf ! j)"
proof -
  have "(0::nat) \<le> unat (createMapping_loop sourceCdf refCdf 0 0 (replicate 256 0) ! i)
      \<and> unat (createMapping_loop sourceCdf refCdf 0 0 (replicate 256 0) ! i)
          \<le> unat (createMapping_loop sourceCdf refCdf 0 0 (replicate 256 0) ! j)"
    using assms by (intro createMapping_loop_mono) simp_all
  then show ?thesis by (simp add: createMapping_def)
qed

theorem createMapping_monotone_witness:
  "(3::nat) < 200 \<and> (200::nat) < 256
   \<and> unat (createMapping (replicate 50 (Finite 0) @ replicate 206 (Finite 1))
                          (replicate 200 (Finite 0) @ replicate 56 (Finite 1)) ! 3)
     \<le> unat (createMapping (replicate 50 (Finite 0) @ replicate 206 (Finite 1))
                            (replicate 200 (Finite 0) @ replicate 56 (Finite 1)) ! 200)"
  using createMapping_monotone[of 3 200 "replicate 50 (Finite 0) @ replicate 206 (Finite 1)"
          "replicate 200 (Finite 0) @ replicate 56 (Finite 1)"]
  by simp

text \<open>
  Claim C5. For 256-entry CDF arrays of which the source one is non-decreasing, the
  Channel Mapper assigns to a source index \<open>s\<close> the first (smallest) reference value
  \<open>v\<close> whose CDF is not less than the source CDF at \<open>s\<close>: if the reference CDF is
  less than the source value at every index below \<open>v\<close> and not less at \<open>v\<close>, then
  \<open>mapping[s] = v\<close>. On a plateau of the reference CDF at the source's level this is
  the first value of the plateau.
\<close>

theorem createMapping_first_not_less:
  assumes "length sourceCdf = 256" "length refCdf = 256"
    and "\<forall>a b. a \<le> b \<and> b < 256 \<longrightarrow> fle (sourceCdf ! a) (sourceCdf ! b)"
    and "s < 256" "v < 256"
    and "\<not> fless (refCdf ! v) (sourceCdf ! s)"
    and "\<forall>u. u < v \<longrightarrow> fless (refCdf ! u) (sourceCdf ! s)"
  shows "unat (createMapping sourceCdf refCdf ! s) = v"
  using assms by (intro createMapping_first) simp_all

theorem createMapping_first_not_less_witness:
  "unat (createMapping (replicate 50 (Finite 0) @ replicate 206 (Finite 1))
                       (replicate 200 (Finite 0) @ replicate 56 (Finite 1)) ! 50) = 200"
proof -
  let ?src = "replicate 50 (Finite 0) @ replicate 206 (Finite 1)"
  let ?ref = "replicate 200 (Finite 0) @ replicate 56 (Finite 1)"
  have 1: "length ?src = 256" and 2: "length ?ref = 256" by simp_all
  have 3: "\<forall>a b. a \<le> b \<and> b < 256 \<longrightarrow> fle (?src ! a) (?src ! b)"
    by (auto simp: nth_append)
  have 4: "(50::nat) < 256" and 5: "(200::nat) < 256" by simp_all
  have 6: "\<not> fless (?ref ! 200) (?src ! 50)" by (simp add: nth_append)
  have 7: "\<forall>u. u < 200 \<longrightarrow> fless (?ref ! u) (?src ! 50)" by (simp add: nth_append)
  show ?thesis by (rule createMapping_first_not_less[OF 1 2 3 4 5 6 7])
qed

text \<open>
  Claim C6. For a histogram bucket array of 256 counts and its total pixel count
  \<open>n > 0\<close> (the sum of the counts, as the Histogram Builder produces them), the CDF of
  the Distribution Normalizer is non-decreasing across the indices 0..255, has
  \<open>CDF[0] \<ge> 0\<close> and has \<open>CDF[255] = 1.0\<close> exactly. The comparison \<open>fle\<close> is
  false on NaN, so no entry compared here is NaN.
\<close>

theorem getCDF_valid:
  assumes "length hist = 256" "0 < n" "sum_list (map unat hist) = n"
  shows "(\<forall>i j. i \<le> j \<and> j < 256 \<longrightarrow>
            fle (getCDF hist (Finite (of_nat n)) ! i) (getCDF hist (Finite (of_nat n)) ! j))
       \<and> fle (Finite 0) (getCDF hist (Finite (of_nat n)) ! 0)
       \<and> getCDF hist (Finite (of_nat n)) ! 255 = Finite 1"
proof (intro conjI allI impI)
  fix i j :: nat
  assume "i \<le> j \<and> j < 256"
  then show "fle (getCDF hist (Finite (of_nat n)) ! i) (getCDF hist (Finite (of_nat n)) ! j)"
    using assms(1,2) by (intro getCDF_mono) simp_all
next
  show "fle (Finite 0) (getCDF hist (Finite (of_nat n)) ! 0)"
    using assms(1,2) by (simp add: getCDF_nth quotient_nonneg del: fdiv.simps)
next
  have "take (Suc 255) hist = hist" using assms(1) by simp
  then have "getCDF hist (Finite (of_nat n)) ! 255
               = toFloat32 (fdiv (Finite (of_nat n)) (Finite (of_nat n)))"
    using assms(1,3) by (simp add: getCDF_nth del: fdiv.simps)
  then show "getCDF hist (Finite (of_nat n)) ! 255 = Finite 1"
    using assms(2) by (simp only: quotient_one)
qed

theorem getCDF_valid_witness:
  "fle (getCDF (2 # 1 # replicate 254 0) (Finite 3) ! 0)
       (getCDF (2 # 1 # replicate 254 0) (Finite 3) ! 1)
   \<and> fle (Finite 0) (getCDF (2 # 1 # replicate 254 0) (Finite 3) ! 0)
   \<and> getCDF (2 # 1 # replicate 254 0) (Finite 3) ! 255 = Finite 1"
proof -
  have 1: "length (2 # 1 # replicate 254 (0::32 word)) = 256" by simp
  have 2: "(0::nat) < 3" by simp
  have 3: "sum_list (map unat (2 # 1 # replicate 254 (0::32 word))) = 3" by simp
  have "(0::nat) \<le> 1 \<and> (1::nat) < 256" by simp
  then show ?thesis using getCDF_valid[OF 1 2 3] by simp
qed

section \<open>The Histogram Builder, the Grading Applicator and the round trip\<close>

text \<open>
  Claim C7. For every pixel buffer whose length is a multiple of 4 and that holds fewer
  than \<open>2 ^ 32\<close> pixels (a \<open>Uint32Array\<close> count wraps at \<open>2 ^ 32\<close>), the counts of each
  of the three histograms of the Histogram Builder sum to the number of pixels, the buffer
  length divided by 4. Alpha samples are not counted: a buffer that differs in alpha
  samples only has the same three histograms.
\<close>

theorem getHistogram_totals:
  assumes "4 dvd length data" "length data div 4 < 2 ^ 32"
  shows "sum_list (map unat (rHist (getHistogram data))) = length data div 4
       \<and> sum_list (map unat (gHist (getHistogram data))) = length data div 4
       \<and> sum_list (map unat (bHist (getHistogram data))) = length data div 4
       \<and> (\<forall>data'. length data' = length data
             \<and> (\<forall>j. j < length data \<and> j mod 4 \<noteq> 3 \<longrightarrow> data' ! j = data ! j)
             \<longrightarrow> getHistogram data' = getHistogram data)"
proof -
  let ?h0 = "\<lparr> rHist = replicate 256 0, gHist = replicate 256 0, bHist = replicate 256 0 \<rparr>"
  have "sum_list (map unat (rHist (getHistogram_loop data 0 ?h0)))
           = sum_list (map unat (rHist ?h0)) + (length data - 0) div 4
       \<and> sum_list (map unat (gHist (getHistogram_loop data 0 ?h0)))
           = sum_list (map unat (gHist ?h0)) + (length data - 0) div 4
       \<and> sum_list (map unat (bHist (getHistogram_loop data 0 ?h0)))
           = sum_list (map unat (bHist ?h0)) + (length data - 0) div 4"
    using assms by (intro getHistogram_loop_sums) (simp_all add: sum_list_replicate)
  then have sums: "sum_list (map unat (rHist (getHistogram data))) = length data div 4
       \<and> sum_list (map unat (gHist (getHistogram data))) = length data div 4
       \<and> sum_list (map unat (bHist (getHistogram data))) = length data div 4"
    by (simp add: getHistogram_def sum_list_replicate)
  have "getHistogram data' = getHistogram data"
    if "length data' = length data"
      "\<forall>j. j < length data \<and> j mod 4 \<noteq> 3 \<longrightarrow> data' ! j = data ! j" for data'
    unfolding getHistogram_def using that by (intro getHistogram_loop_alpha) simp_all
  with sums show ?thesis by blast
qed

theorem getHistogram_totals_witness:
  "sum_list (map unat (rHist (getHistogram [1, 2, 3, 4, 1, 6, 7, 8]))) = 2
   \<and> sum_list (map unat (gHist (getHistogram [1, 2, 3, 4, 1, 6, 7, 8]))) = 2
   \<and> sum_list (map unat (bHist (getHistogram [1, 2, 3, 4, 1, 6, 7, 8]))) = 2
   \<and> getHistogram [1, 2, 3, 9, 1, 6, 7, 200] = getHistogram [1, 2, 3, 4, 1, 6, 7, 8]"
proof -
  let ?data = "[1, 2, 3, 4, 1, 6, 7, 8] :: 8 word list"
  let ?data' = "[1, 2, 3, 9, 1, 6, 7, 200] :: 8 word list"
  have len: "length ?data = 8" by simp
  have 1: "4 dvd length ?data" unfolding len by simp
  have 2: "length ?data div 4 < 2 ^ 32" unfolding len by simp
  have 3: "length ?data' = length ?data" by simp
  have 4: "\<forall>j. j < length ?data \<and> j mod 4 \<noteq> 3 \<longrightarrow> ?data' ! j = ?data ! j"
  proof (intro allI impI)
    fix j :: nat
    assume "j < length ?data \<and> j mod 4 \<noteq> 3"
    then have "j < 8 \<and> j mod 4 \<noteq> 3" unfolding len .
    then have "j \<in> {0, 1, 2, 4, 5, 6}" unfolding insert_iff empty_iff by presburger
    then show "?data' ! j = ?data ! j" by (elim insertE emptyE) simp_all
  qed
  have 5: "length ?data div 4 = 2" unfolding len by simp
  note T = getHistogram_totals[OF 1 2, unfolded 5]
  show ?thesis
    using T[THEN conjunct1] T[THEN conjunct2, THEN conjunct1]
      T[THEN conjunct2, THEN conjunct2, THEN conjunct1]
      T[THEN conjunct2, THEN conjunct2, THEN conjunct2, THEN spec, of ?data', THEN mp,
        OF conjI[OF 3 4]]
    by (intro conjI)
qed

text \<open>
  Claim C4. For every source buffer and every triple of 256-entry channel mappings, the
  Grading Applicator with intensity 0 returns the input buffer with every alpha sample
  replaced by 255, and with intensity 1 returns the buffer in which every colour sample is
  replaced by its image under the mapping of its channel (alpha again 255).
\<close>

theorem applyMappings_intensity_bounds:
  assumes "length mr = 256" "length mg = 256" "length mb = 256"
  shows "applyMappings data mr mg mb (Finite 0)
           = map (\<lambda>j. if j mod 4 = 3 then 255 else data ! j) [0..<length data]
       \<and> applyMappings data mr mg mb (Finite 1)
           = map (\<lambda>j. if j mod 4 = 3 then 255
                       else (if j mod 4 = 0 then mr else if j mod 4 = 1 then mg else mb)
                              ! unat (data ! j))
               [0..<length data]"
proof (intro conjI nth_equalityI)
  fix j
  assume "j < length (applyMappings data mr mg mb (Finite 0))"
  then have j: "j < length data" by simp
  have l: "lookup (if j mod 4 = 0 then mr else if j mod 4 = 1 then mg else mb)
             (Some (data ! j)) =
           Some ((if j mod 4 = 0 then mr else if j mod 4 = 1 then mg else mb) ! unat (data ! j))"
    using assms by (intro lookup_byte) simp
  show "applyMappings data mr mg mb (Finite 0) ! j
          = map (\<lambda>j. if j mod 4 = 3 then 255 else data ! j) [0..<length data] ! j"
    using j by (simp add: applyMappings_nth gradedSample_def byteAt_def l blend_zero)
next
  fix j
  assume "j < length (applyMappings data mr mg mb (Finite 1))"
  then have j: "j < length data" by simp
  have l: "lookup (if j mod 4 = 0 then mr else if j mod 4 = 1 then mg else mb)
             (Some (data ! j)) =
           Some ((if j mod 4 = 0 then mr else if j mod 4 = 1 then mg else mb) ! unat (data ! j))"
    using assms by (intro lookup_byte) simp
  show "applyMappings data mr mg mb (Finite 1) ! j
          = map (\<lambda>j. if j mod 4 = 3 then 255
                      else (if j mod 4 = 0 then mr else if j mod 4 = 1 then mg else mb)
                             ! unat (data ! j))
              [0..<length data] ! j"
    using j by (simp add: applyMappings_nth gradedSample_def byteAt_def l blend_one)
qed simp_all


theorem applyMappings_intensity_bounds_witness:
  "applyMappings [10, 20, 30, 40] (replicate 256 1) (replicate 256 2) (replicate 256 3) (Finite 0)
     = [10, 20, 30, 255]
   \<and> applyMappings [10, 20, 30, 40] (replicate 256 1) (replicate 256 2) (replicate 256 3) (Finite 1)
     = [1, 2, 3, 255]"
proof -
  have 1: "length (replicate 256 (1::8 word)) = 256"
    and 2: "length (replicate 256 (2::8 word)) = 256"
    and 3: "length (replicate 256 (3::8 word)) = 256" by simp_all
  have u: "[0..<length [10, 20, 30, 40 :: 8 word]] = [0, 1, 2, 3]"
    by (simp add: upt_rec)
  show ?thesis
    using applyMappings_intensity_bounds[OF 1 2 3, of "[10, 20, 30, 40]"]
    unfolding u by simp
qed

text \<open>The mapping between two channels that each hold a single value sends the source's
  value to the reference's value.\<close>

lemma single_value_mapping:
  assumes "ks \<le> s" "s < 256" "kr < 256" "0 < n" "n < 2 ^ 32" "0 < m" "m < 2 ^ 32"
  shows "unat (createMapping (getCDF ((replicate 256 0)[ks := of_nat n]) (Finite (of_nat n)))
                             (getCDF ((replicate 256 0)[kr := of_nat m]) (Finite (of_nat m)))
               ! s) = kr"
proof (rule createMapping_first)
  let ?src = "getCDF ((replicate 256 0)[ks := of_nat n]) (Finite (of_nat n))"
  let ?ref = "getCDF ((replicate 256 0)[kr := of_nat m]) (Finite (of_nat m))"
  have ks: "ks < 256" using assms(1,2) by simp
  show "length ?src = 256" "length ?ref = 256" by simp_all
  show "s < 256" "kr < 256" by fact+
  show "fle (?src ! a) (?src ! b)" if "a \<le> b" "b < 256" for a b
    using that ks assms(4,5) by (auto simp: getCDF_single)
  show "\<not> fless (?ref ! kr) (?src ! s)"
    using assms ks by (simp add: getCDF_single)
  show "fless (?ref ! u) (?src ! s)" if "u < kr" for u
    using that assms ks by (simp add: getCDF_single)
qed

lemma pixel_total:
  assumes "w * h < 2 ^ 53"
  shows "fmul (Finite (of_nat w)) (Finite (of_nat h)) = Finite (of_nat (w * h))"
  using round64_of_nat[OF assms] by simp

lemma red_mapping_single:
  assumes "length (imgData sourcePixels) = 4 * (imgWidth sourcePixels * imgHeight sourcePixels)"
    and "imgWidth sourcePixels * imgHeight sourcePixels = n" "0 < n" "n < 2 ^ 32"
    and "channelSamples 0 (imgData sourcePixels) = replicate n ws"
    and "length (imgData refPixels) = 4 * (imgWidth refPixels * imgHeight refPixels)"
    and "imgWidth refPixels * imgHeight refPixels = m" "0 < m" "m < 2 ^ 32"
    and "channelSamples 0 (imgData refPixels) = replicate m wr"
    and "unat ws \<le> s" "s < 256"
  shows "fst (channelMappings sourcePixels refPixels) ! s = wr"
proof -
  have ls: "length (imgData sourcePixels) div 4 = n" "4 dvd length (imgData sourcePixels)"
    using assms(1,2) by simp_all
  have lr: "length (imgData refPixels) div 4 = m" "4 dvd length (imgData refPixels)"
    using assms(6,7) by simp_all
  have hs: "rHist (getHistogram (imgData sourcePixels)) = (replicate 256 0)[unat ws := of_nat n]"
    using rHist_single[OF ls(2), of ws] assms(5) ls(1) by simp
  have hr: "rHist (getHistogram (imgData refPixels)) = (replicate 256 0)[unat wr := of_nat m]"
    using rHist_single[OF lr(2), of wr] assms(10) lr(1) by simp
  have ts: "fmul (Finite (of_nat (imgWidth sourcePixels))) (Finite (of_nat (imgHeight sourcePixels)))
              = Finite (of_nat n)"
    using assms(2,4) by (subst pixel_total) simp_all
  have tr: "fmul (Finite (of_nat (imgWidth refPixels))) (Finite (of_nat (imgHeight refPixels)))
              = Finite (of_nat m)"
    using assms(7,9) by (subst pixel_total) simp_all
  have "fst (channelMappings sourcePixels refPixels)
          = createMapping (getCDF ((replicate 256 0)[unat ws := of_nat n]) (Finite (of_nat n)))
                          (getCDF ((replicate 256 0)[unat wr := of_nat m]) (Finite (of_nat m)))"
    by (simp add: channelMappings_def channelCDFs_def Let_def hs hr ts tr del: fmul.simps)
  moreover have "unat ws < 256" "unat wr < 256"
    using unsigned_less[of ws] unsigned_less[of wr] by simp_all
  ultimately have "unat (fst (channelMappings sourcePixels refPixels) ! s) = unat wr"
    using assms(3,4,8,9,11,12) by (simp add: single_value_mapping)
  then show ?thesis by (simp add: word_unat_eq_iff)
qed

text \<open>
  Claim C9. For a reference image of exactly 10 pixels whose red samples are all 200 and a
  source image of 10 pixels whose red samples are all 50, the red mapping that Histogram
  Builder, Distribution Normalizer and Channel Mapper produce sends 50 to 200.
\<close>

theorem red_50_maps_to_200:
  assumes "length (imgData sourcePixels) = 4 * (imgWidth sourcePixels * imgHeight sourcePixels)"
    and "imgWidth sourcePixels * imgHeight sourcePixels = 10"
    and "channelSamples 0 (imgData sourcePixels) = replicate 10 50"
    and "length (imgData refPixels) = 4 * (imgWidth refPixels * imgHeight refPixels)"
    and "imgWidth refPixels * imgHeight refPixels = 10"
    and "channelSamples 0 (imgData refPixels) = replicate 10 200"
  shows "fst (channelMappings sourcePixels refPixels) ! 50 = 200"
  using red_mapping_single[OF assms(1,2) _ _ assms(3) assms(4,5) _ _ assms(6), of 50] by simp

lemma redImage_data:
  "imgData (redImage v) =
     [v, 0, 0, 255, v, 0, 0, 255, v, 0, 0, 255, v, 0, 0, 255, v, 0, 0, 255,
      v, 0, 0, 255, v, 0, 0, 255, v, 0, 0, 255, v, 0, 0, 255, v, 0, 0, 255]"
  by (simp add: redImage_def replicate_numeral_Cons)

lemma redImage_length: "length (imgData (redImage v)) = 40"
  by (simp add: redImage_data)

lemma redImage_size: "imgWidth (redImage v) * imgHeight (redImage v) = 10"
  by (simp add: redImage_def)

lemma upt_10: "[0..<10] = [0, 1, 2, 3, 4, 5, 6, 7, 8, 9]"
  by code_simp

lemma redImage_red: "channelSamples 0 (imgData (redImage v)) = replicate 10 v"
  by (simp add: channelSamples_def redImage_length upt_10 replicate_numeral_Cons)
     (simp add: redImage_data)

theorem red_50_maps_to_200_witness:
  "fst (channelMappings (redImage 50) (redImage 200)) ! 50 = 200"
proof -
  have 1: "length (imgData (redImage 50)) = 4 * (imgWidth (redImage 50) * imgHeight (redImage 50))"
    by (simp add: redImage_length redImage_size)
  have 2: "length (imgData (redImage 200))
             = 4 * (imgWidth (redImage 200) * imgHeight (redImage 200))"
    by (simp add: redImage_length redImage_size)
  show ?thesis
    by (rule red_50_maps_to_200[OF 1 redImage_size redImage_red 2 redImage_size redImage_red])
qed

text \<open>
  Claim C3, as amended. The Distribution Normalizer has no failure path. Invoked on 256
  counts with total pixel count 0 it returns the 256-entry array whose entry \<open>j\<close> is NaN
  while the running count up to \<open>j\<close> is 0 and \<open>+Infinity\<close> once it is positive.
\<close>

theorem getCDF_zero_total:
  assumes "length hist = 256" "j < 256"
  shows "length (getCDF hist (Finite 0)) = 256
       \<and> getCDF hist (Finite 0) ! j
           = (if sum_list (map unat (take (Suc j) hist)) = 0 then NaN else PosInf)"
  using assms by (simp add: getCDF_nth)

theorem getCDF_zero_total_witness:
  "length (getCDF (0 # 5 # replicate 254 0) (Finite 0)) = 256
   \<and> getCDF (0 # 5 # replicate 254 0) (Finite 0) ! 0 = NaN
   \<and> getCDF (0 # 5 # replicate 254 0) (Finite 0) ! 1 = PosInf"
proof -
  have 1: "length (0 # 5 # replicate 254 (0::32 word)) = 256" by simp
  have 2: "(0::nat) < 256" and 3: "(1::nat) < 256" by simp_all
  show ?thesis
    using getCDF_zero_total[OF 1 2] getCDF_zero_total[OF 1 3] by simp
qed

text \<open>The claim as stated fails: with no pixels and an empty histogram the function
  returns an array of NaN.\<close>

theorem getCDF_zero_total_counterexample:
  "getCDF (replicate 256 0) (Finite 0) = replicate 256 NaN"
proof (rule nth_equalityI)
  show "length (getCDF (replicate 256 0) (Finite 0)) = length (replicate 256 NaN)" by simp
next
  fix j
  assume "j < length (getCDF (replicate 256 0) (Finite 0))"
  then have j: "j < 256" by simp
  have "sum_list (map unat (take (Suc j) (replicate 256 (0::32 word)))) = 0"
    by (simp add: sum_list_replicate del: replicate_Suc replicate.simps)
  then show "getCDF (replicate 256 0) (Finite 0) ! j = replicate 256 NaN ! j"
    using j by (simp add: getCDF_nth del: replicate_Suc replicate.simps)
qed

section \<open>The LUT Synthesizer\<close>

text \<open>
  Claim C8. The output of the LUT Synthesizer is a TITLE line, the line
  \<open>LUT_3D_SIZE 33\<close> and a blank line, followed by one data line for each of the
  \<open>33 ^ 3 = 35937\<close> grid points, \<open>b\<close> outermost, \<open>g\<close> in the middle and \<open>r\<close>
  innermost; the data line of the point \<open>(r, g, b)\<close> is its own coordinates \<open>r / 32\<close>,
  \<open>g / 32\<close> and \<open>b / 32\<close> with six decimals, separated by one space. This is the output
  for every input, so also when the mappings are the identity and the intensity is 1.
\<close>

theorem generateLUTData_identity_grid:
  "generateLUTData sourceUrl refUrl intensity =
     ''TITLE '' @ [CHR 0x22] @ ''LuminaLUT Grade'' @ [CHR 0x22] @ ''\<newline>''
     @ ''LUT_3D_SIZE 33\<newline>''
     @ ''\<newline>''
     @ concat (map (\<lambda>(b, g, r). axisText ! r @ '' '' @ axisText ! g @ '' '' @ axisText ! b
                                  @ ''\<newline>'')
         (List.product [0..<33] (List.product [0..<33] [0..<33])))
   \<and> length (List.product [0..<33] (List.product [0..<33] [0..<33])) = 35937"
proof -
  have m: "map (\<lambda>(b, g, r). gridLine r g b) (List.product [0..<33] (List.product [0..<33] [0..<33]))
      = map (\<lambda>(b, g, r). axisText ! r @ '' '' @ axisText ! g @ '' '' @ axisText ! b
                              @ ''\<newline>'')
          (List.product [0..<33] (List.product [0..<33] [0..<33]))"
    by (rule map_cong[OF refl]) (auto simp: gridLine_text)
  have n: "length (List.product [0..<33] (List.product [0..<33] [0..<33])) = 35937" by simp
  have "generateLUTData sourceUrl refUrl intensity =
     ''TITLE '' @ [CHR 0x22] @ ''LuminaLUT Grade'' @ [CHR 0x22] @ ''\<newline>''
     @ ''LUT_3D_SIZE 33\<newline>\<newline>''
     @ concat (map (\<lambda>(b, g, r). axisText ! r @ '' '' @ axisText ! g @ '' '' @ axisText ! b
                                  @ ''\<newline>'')
         (List.product [0..<33] (List.product [0..<33] [0..<33])))"
    by (simp only: generateLUTData_lines m)
  then show ?thesis using n by (simp del: map_eq_conv)
qed

text \<open>
  Claim C10. The LUT export returns the same string for every pair of runs: its result
  depends on neither the source image, nor the reference image, nor the intensity.
\<close>

theorem generateLUTData_independent:
  "generateLUTData sourceUrl refUrl intensity = generateLUTData sourceUrl' refUrl' intensity'"
  by (simp add: generateLUTData_def)

lemma generateLUTData_nested:
  "generateLUTData sourceUrl refUrl intensity =
     ''TITLE '' @ [CHR 0x22] @ ''LuminaLUT Grade'' @ [CHR 0x22] @ ''\<newline>''
     @ ''LUT_3D_SIZE 33\<newline>\<newline>''
     @ concat (map (\<lambda>b. concat (map (\<lambda>g. concat (map (\<lambda>r. gridLine r g b) [0..<33]))
                                      [0..<33]))
                [0..<33])"
  by (simp add: generateLUTData_def Let_def fold_fold_fold_append natDigits_LUT_SIZE
        LUT_SIZE_def[symmetric])

lemma length_axisText:
  assumes "i < 33"
  shows "length (axisText ! i) = 8"
proof -
  have "\<forall>s \<in> set axisText. length s = 8" by (simp add: axisText_def)
  moreover have "length axisText = 33" by (simp add: axisText_def)
  then have "axisText ! i \<in> set axisText" using assms by (intro nth_mem) simp
  ultimately show ?thesis by blast
qed

lemma length_gridLine:
  assumes "r < 33" "g < 33" "b < 33"
  shows "length (gridLine r g b) = 27"
  using assms by (simp add: gridLine_text length_axisText)

lemma length_concat_uniform:
  assumes "\<And>x. x \<in> set xs \<Longrightarrow> length (f x) = n"
  shows "length (concat (map f xs)) = length xs * n"
  using assms by (induction xs) simp_all

lemma first_row_split:
  "concat (map (\<lambda>b. concat (map (\<lambda>g. concat (map (\<lambda>r. gridLine r g b) [0..<33])) [0..<33]))
            [0..<33])
     = concat (map (\<lambda>r. gridLine r 0 0) [0..<32]) @ gridLine 32 0 0
       @ concat (map (\<lambda>g. concat (map (\<lambda>r. gridLine r g 0) [0..<33])) [1..<33])
       @ concat (map (\<lambda>b. concat (map (\<lambda>g. concat (map (\<lambda>r. gridLine r g b) [0..<33]))
                                       [0..<33]))
                  [1..<33])"
proof -
  have a: "[0..<33] = 0 # [1..<33]" by (simp add: upt_conv_Cons)
  have b: "[0..<33] = [0..<32] @ [32]" using upt_Suc_append[of 0 32] by simp
  have "concat (map (\<lambda>r. gridLine r 0 0) [0..<33])
          = concat (map (\<lambda>r. gridLine r 0 0) [0..<32]) @ gridLine 32 0 0"
    by (subst b) simp
  then show ?thesis
    by (subst a, simp only: list.map concat.simps, subst (2) a, simp only: list.map concat.simps)
       simp
qed

text \<open>
  Claim C2 fails on the code. For the source image of 10 pixels with red 50 and the
  reference image of 10 pixels with red 200 the red channel mapping sends 255 to 200, so
  at intensity 1 the grid point \<open>(r, g, b) = (32, 0, 0)\<close> should carry the red value
  \<open>200 / 255\<close>. The exported text does not depend on the images: behind the 40
  characters of the header and the 32 lines of 27 characters of the grid points before it,
  the line of that grid point is the identity line \<open>1.000000 0.000000 0.000000\<close>.
\<close>

theorem generateLUTData_red_corner:
  "fst (channelMappings (redImage 50) (redImage 200)) ! 255 = 200
   \<and> take 27 (drop (40 + 32 * 27) (generateLUTData sourceUrl refUrl (Finite 1)))
       = ''1.000000 0.000000 0.000000\<newline>''"
proof
  have 1: "length (imgData (redImage 50)) = 4 * (imgWidth (redImage 50) * imgHeight (redImage 50))"
    by (simp add: redImage_length redImage_size)
  have 2: "length (imgData (redImage 200))
             = 4 * (imgWidth (redImage 200) * imgHeight (redImage 200))"
    by (simp add: redImage_length redImage_size)
  show "fst (channelMappings (redImage 50) (redImage 200)) ! 255 = 200"
    by (rule red_mapping_single[OF 1 redImage_size _ _ redImage_red 2 redImage_size _ _
          redImage_red]) simp_all
next
  define A where "A = concat (map (\<lambda>r. gridLine r 0 0) [0..<32])"
  define R where "R = concat (map (\<lambda>g. concat (map (\<lambda>r. gridLine r g 0) [0..<33])) [1..<33])
       @ concat (map (\<lambda>b. concat (map (\<lambda>g. concat (map (\<lambda>r. gridLine r g b) [0..<33]))
                                       [0..<33]))
                  [1..<33])"
  define H where "H = ''TITLE '' @ [CHR 0x22] @ ''LuminaLUT Grade'' @ [CHR 0x22] @ ''\<newline>''
     @ ''LUT_3D_SIZE 33\<newline>\<newline>''"
  have out: "generateLUTData sourceUrl refUrl (Finite 1) = (H @ A) @ gridLine 32 0 0 @ R"
    by (simp only: generateLUTData_nested first_row_split H_def A_def R_def append_assoc)
  have "length A = length [0..<32] * 27"
    unfolding A_def by (rule length_concat_uniform) (simp add: length_gridLine)
  then have lA: "length (H @ A) = 40 + 32 * 27" by (simp add: H_def)
  have L: "gridLine 32 0 0 = ''1.000000 0.000000 0.000000\<newline>''"
    by (simp add: gridLine_text axisText_def)
  have "take 27 (drop (40 + 32 * 27) ((H @ A) @ gridLine 32 0 0 @ R)) = gridLine 32 0 0"
    using lA length_gridLine[of 32 0 0] by (simp del: append_assoc)
  then show "take 27 (drop (40 + 32 * 27) (generateLUTData sourceUrl refUrl (Finite 1)))
       = ''1.000000 0.000000 0.000000\<newline>''"
    by (simp only: out L)
qed

end
